theory Spec2Isabelle
  imports Main "HOL-Library.Char_ord" "HOL-Library.List_Lexorder" "HOL-Library.Sublist"
begin

section \<open>Basic types\<close>

text \<open>
  Versions, symbol names, API categories and URLs are Python \<open>str\<close> values; they are modelled
  as \<open>string\<close> (ASCII). Python compares strings lexicographically by code point, which is the
  order of \<open>List_Lexorder\<close> over \<open>Char_ord\<close>.
\<close>

type_synonym version = string
type_synonym symbol = string
type_synonym api_type = string
type_synonym url = string

text \<open>
  The exceptions that the modelled functions can raise. \<open>SystemExit n\<close> is \<open>sys.exit(n)\<close>.
\<close>

datatype error = ValueError | IndexError | SystemExit nat

text \<open>The module constant \<open>CUDA_VERSIONS\<close> of \<open>cuda_api_tracker.py\<close>, oldest first.\<close>

definition CUDA_VERSIONS :: "version list" where
  "CUDA_VERSIONS =
    [''8.0'',
     ''9.0'', ''9.1'', ''9.2'',
     ''10.0'', ''10.1'', ''10.2'',
     ''11.0'',
     ''11.1.0'', ''11.1.1'',
     ''11.2.0'', ''11.2.1'', ''11.2.2'',
     ''11.3.0'', ''11.3.1'',
     ''11.4.0'', ''11.4.1'', ''11.4.2'', ''11.4.3'', ''11.4.4'',
     ''11.5.0'', ''11.5.1'', ''11.5.2'',
     ''11.6.0'', ''11.6.1'', ''11.6.2'',
     ''11.7.0'', ''11.7.1'',
     ''11.8.0'',
     ''12.0.0'', ''12.0.1'',
     ''12.1.0'', ''12.1.1'',
     ''12.2.0'', ''12.2.1'', ''12.2.2'',
     ''12.3.0'', ''12.3.1'', ''12.3.2'',
     ''12.4.0'', ''12.4.1'',
     ''12.5.0'', ''12.5.1'',
     ''12.6.0'', ''12.6.1'', ''12.6.2'', ''12.6.3'',
     ''12.8.0'', ''12.8.1'',
     ''12.9.0'', ''12.9.1'',
     ''13.0.0'', ''13.0.1'', ''13.0.2'',
     ''13.1.0'', ''13.1.1'']"

section \<open>Python string primitives used by the resolver\<close>

text \<open>
  \<open>int(x)\<close> on a \<open>str\<close>: surrounding whitespace is stripped, an optional sign follows, then
  decimal digits in which single underscores may separate digits. Anything else raises
  \<open>ValueError\<close>, which is \<open>None\<close> here. Only ASCII input is modelled; the interpreter's limit on
  the number of digits is not.
\<close>

definition is_space :: "char \<Rightarrow> bool" where
  "is_space c = (c \<in> set [CHR 0x09, CHR 0x0A, CHR 0x0B, CHR 0x0C, CHR 0x0D,
                            CHR 0x1C, CHR 0x1D, CHR 0x1E, CHR 0x1F, CHR 0x20])"

definition strip :: "string \<Rightarrow> string" where
  "strip s = rev (dropWhile is_space (rev (dropWhile is_space s)))"

definition is_digit :: "char \<Rightarrow> bool" where
  "is_digit c = (c \<in> set ''0123456789'')"

definition digit_val :: "char \<Rightarrow> nat" where
  "digit_val c = of_char c - 48"

fun py_digits :: "string \<Rightarrow> nat \<Rightarrow> nat option" where
  "py_digits [] acc = Some acc"
| "py_digits [c] acc = (if is_digit c then Some (10 * acc + digit_val c) else None)"
| "py_digits (c # d # ds) acc =
     (if is_digit c then py_digits (d # ds) (10 * acc + digit_val c)
      else if c = CHR ''_'' \<and> is_digit d then py_digits ds (10 * acc + digit_val d)
      else None)"

definition py_nat :: "string \<Rightarrow> nat option" where
  "py_nat s = (case s of [] \<Rightarrow> None
               | c # cs \<Rightarrow> if is_digit c then py_digits cs (digit_val c) else None)"

definition py_int :: "string \<Rightarrow> int option" where
  "py_int s =
     (case strip s of
        [] \<Rightarrow> None
      | c # cs \<Rightarrow>
          if c = CHR ''-'' then map_option (\<lambda>n. - int n) (py_nat cs)
          else if c = CHR ''+'' then map_option int (py_nat cs)
          else map_option int (py_nat (c # cs)))"

text \<open>\<open>s.split('.')\<close>: the fields between dots; there is always at least one field.\<close>

fun split_dot :: "string \<Rightarrow> string list" where
  "split_dot [] = [[]]"
| "split_dot (c # cs) =
     (if c = CHR ''.'' then [] # split_dot cs
      else (case split_dot cs of [] \<Rightarrow> [[c]] | f # fs \<Rightarrow> (c # f) # fs))"

text \<open>\<open>[int(x) for x in s.split('.')]\<close>; \<open>None\<close> when some field raises \<open>ValueError\<close>.\<close>

definition int_parts :: "string \<Rightarrow> int list option" where
  "int_parts s = those (map py_int (split_dot s))"

text \<open>
  \<open>xs.index(v)\<close> for a \<open>v\<close> that occurs in \<open>xs\<close>: the position of its first occurrence. Every
  call site of the source passes an element of the list (see \<open>find_closest_version_mem\<close> and
  \<open>search_present_subset\<close> below), so the \<open>ValueError\<close> of a missing element cannot arise.
\<close>

definition index :: "'a list \<Rightarrow> 'a \<Rightarrow> nat" where
  "index xs v = length (takeWhile (\<lambda>x. x \<noteq> v) xs)"

section \<open>Version Resolver (\<open>cuda_api_changelog.py\<close>)\<close>

text \<open>
  The second loop of \<open>find_closest_version\<close>, over the versions in list order. The target's
  parts are non-empty (\<open>split\<close> returns at least one field). \<open>v_parts[1]\<close> is read only when the
  majors agree and the target has more than one part; it raises \<open>IndexError\<close> on a version
  with a single field.
\<close>

fun numeric_match :: "int list \<Rightarrow> version list \<Rightarrow> error + version option" where
  "numeric_match tp [] = Inr None"
| "numeric_match tp (v # vs) =
     (case int_parts v of
        None \<Rightarrow> Inl ValueError
      | Some vp \<Rightarrow>
          if hd vp = hd tp then
            (if length tp = 1 then Inr (Some v)
             else if length vp < 2 then Inl IndexError
             else if vp ! 1 \<ge> tp ! 1 then Inr (Some v)
             else numeric_match tp vs)
          else numeric_match tp vs)"

text \<open>
  \<open>find_closest_version(target)\<close> over the version list \<open>vs\<close> (the global \<open>CUDA_VERSIONS\<close> in
  the source). \<open>Inr None\<close> is the source's \<open>return None\<close>.
\<close>

definition find_closest_version :: "version list \<Rightarrow> string \<Rightarrow> error + version option" where
  "find_closest_version vs target =
     (if target \<in> set vs then Inr (Some target)
      else case find (\<lambda>v. prefix target v) vs of
        Some v \<Rightarrow> Inr (Some v)
      | None \<Rightarrow>
          (case int_parts target of
             None \<Rightarrow> Inl ValueError
           | Some tp \<Rightarrow> numeric_match tp vs))"

text \<open>
  \<open>get_version_range(since, until)\<close>. \<open>if not since_v\<close> is true for \<open>None\<close> and for the empty
  string; \<open>if until\<close> is false for \<open>None\<close> and for the empty string. The slice
  \<open>vs[start_idx:end_idx]\<close> of non-negative indices is \<open>drop start_idx (take end_idx vs)\<close>.
\<close>

definition resolve_or_exit :: "version list \<Rightarrow> string \<Rightarrow> error + version" where
  "resolve_or_exit vs tok =
     (case find_closest_version vs tok of
        Inl e \<Rightarrow> Inl e
      | Inr None \<Rightarrow> Inl (SystemExit 1)
      | Inr (Some v) \<Rightarrow> if v = [] then Inl (SystemExit 1) else Inr v)"

definition get_version_range ::
  "version list \<Rightarrow> string option \<Rightarrow> string option \<Rightarrow> error + version list" where
  "get_version_range vs since until =
     (case (case since of
              None \<Rightarrow> Inr 0
            | Some s \<Rightarrow> map_sum id (index vs) (resolve_or_exit vs s)) of
        Inl e \<Rightarrow> Inl e
      | Inr start_idx \<Rightarrow>
          (case (if until \<noteq> None \<and> until \<noteq> Some []
                 then map_sum id (\<lambda>v. index vs v + 1) (resolve_or_exit vs (the until))
                 else Inr (length vs)) of
             Inl e \<Rightarrow> Inl e
           | Inr end_idx \<Rightarrow> Inr (drop start_idx (take end_idx vs))))"

section \<open>Version Symbol Cache (\<open>cuda_api_tracker.py\<close>)\<close>

text \<open>
  The page fetcher and the two HTML parsers are external collaborators; they are the fields
  of an environment. \<open>fetch_url\<close> returns the empty string on every failure and never raises.
  \<open>group_links\<close> is what \<open>ModuleIndexParser\<close> collects from a page.
\<close>

record env =
  fetch_url :: "url \<Rightarrow> string"
  extract_apis_from_html :: "string \<Rightarrow> symbol set"
  group_links :: "string \<Rightarrow> string list"

text \<open>
  The cache directory: a file either loads to a collection of names (\<open>Listing\<close>) or makes
  \<open>json.load\<close> raise (\<open>Unreadable\<close>). \<open>writable\<close> tells whether \<open>open(cache_path, 'w')\<close>
  succeeds; a failed write is swallowed by the source's \<open>except Exception: pass\<close> and leaves
  the directory as it was. Failures of \<open>CACHE_DIR.mkdir\<close> are not modelled.
\<close>

datatype cache_file = Unreadable | Listing "symbol list"

record store =
  files :: "string \<rightharpoonup> cache_file"
  writable :: bool

definition ARCHIVE_BASE :: url where
  "ARCHIVE_BASE = ''https://docs.nvidia.com/cuda/archive''"

definition LATEST_BASE :: url where
  "LATEST_BASE = ''https://docs.nvidia.com/cuda''"

text \<open>The file name of \<open>get_cache_path\<close>, relative to \<open>CACHE_DIR\<close>.\<close>

definition get_cache_path :: "version \<Rightarrow> api_type \<Rightarrow> string" where
  "get_cache_path version api_type =
     api_type @ ''_'' @ map (\<lambda>c. if c = CHR ''.'' then CHR ''_'' else c) version @ ''.json''"

text \<open>\<open>base_url.rsplit('/', 1)[0]\<close>.\<close>

definition rsplit_slash :: "string \<Rightarrow> string" where
  "rsplit_slash s =
     (if CHR ''/'' \<in> set s then rev (tl (dropWhile (\<lambda>c. c \<noteq> CHR ''/'') (rev s))) else s)"

text \<open>The body of the loop over \<open>parser.group_links[:20]\<close>.\<close>

definition visit_group :: "env \<Rightarrow> string \<Rightarrow> string \<Rightarrow> symbol set \<Rightarrow> symbol set" where
  "visit_group e base_path link apis =
     (let group_url = (if prefix ''http'' link then link else base_path @ ''/'' @ link);
          group_html = fetch_url e group_url
      in if group_html \<noteq> [] then apis \<union> extract_apis_from_html e group_html else apis)"

text \<open>The loop \<open>for base_url in urls_to_try\<close>, with its \<open>continue\<close> and its \<open>break\<close>.\<close>

fun try_urls :: "env \<Rightarrow> url list \<Rightarrow> symbol set \<Rightarrow> symbol set" where
  "try_urls e [] apis = apis"
| "try_urls e (base_url # rest) apis =
     (let html = fetch_url e base_url in
      if html = [] then try_urls e rest apis
      else
        let apis1 = apis \<union> extract_apis_from_html e html;
            apis2 = fold (visit_group e (rsplit_slash base_url))
                      (take 20 (group_links e html)) apis1
        in if apis2 \<noteq> {} then apis2 else try_urls e rest apis2)"

definition urls_to_try :: "version \<Rightarrow> string \<Rightarrow> url list" where
  "urls_to_try version api_doc =
     [ARCHIVE_BASE @ ''/'' @ version @ ''/'' @ api_doc @ ''/index.html'',
      ARCHIVE_BASE @ ''/'' @ version @ ''/'' @ api_doc @ ''/cuda-runtime-api/index.html'']
     @ (if version = last CUDA_VERSIONS then [LATEST_BASE @ ''/'' @ api_doc @ ''/index.html'']
        else [])"

definition deprecated_url :: "version \<Rightarrow> string \<Rightarrow> url" where
  "deprecated_url version api_doc =
     ARCHIVE_BASE @ ''/'' @ version @ ''/'' @ api_doc @ ''/group__CUDART__HIGHLEVEL.html''"

definition api_doc_of :: "api_type \<Rightarrow> string" where
  "api_doc_of api_type = (if api_type = ''runtime'' then ''cuda-runtime-api'' else ''cuda-driver-api'')"

text \<open>
  \<open>get_api_list_for_version(version, api_type, use_cache)\<close>: the returned set and the cache
  directory after the call.
\<close>

definition get_api_list_for_version ::
  "env \<Rightarrow> store \<Rightarrow> version \<Rightarrow> api_type \<Rightarrow> bool \<Rightarrow> symbol set \<times> store" where
  "get_api_list_for_version e st version api_type use_cache =
     (let cache_path = get_cache_path version api_type in
      case (if use_cache then files st cache_path else None) of
        Some (Listing xs) \<Rightarrow> (set xs, st)
      | _ \<Rightarrow>
          (let api_doc = api_doc_of api_type;
               apis0 = try_urls e (urls_to_try version api_doc) {};
               deprecated_html = fetch_url e (deprecated_url version api_doc);
               apis = (if deprecated_html \<noteq> []
                       then apis0 \<union> extract_apis_from_html e deprecated_html else apis0)
           in (apis,
               if apis \<noteq> {} \<and> use_cache \<and> writable st
               then st\<lparr>files := (files st)(cache_path \<mapsto> Listing (sorted_list_of_set apis))\<rparr>
               else st)))"

section \<open>Boundary Search Engine (\<open>cuda_api_tracker.py\<close>)\<close>

text \<open>
  The result dictionary of \<open>find_api_history\<close>; the field \<open>sr_x\<close> is the key \<open>'x'\<close>.
\<close>

record search_result =
  sr_api_name :: symbol
  sr_api_type :: api_type
  sr_introduced :: "version option"
  sr_removed :: "version option"
  sr_present_in :: "version list"
  sr_not_found_in :: "version list"
  sr_versions_checked :: nat

text \<open>
  The search reads the per-version sets through \<open>get_api_list_for_version\<close>; here that
  getter is a parameter \<open>get\<close>, and the versions it is called on are logged, in call order,
  next to the result. \<open>checked v\<close> is one call of the getter on \<open>v\<close> followed by the source's
  \<open>result['versions_checked'] += 1\<close>.
\<close>

type_synonym getter = "version \<Rightarrow> api_type \<Rightarrow> symbol set"
type_synonym search_state = "search_result \<times> version list"

definition checked :: "version \<Rightarrow> search_state \<Rightarrow> search_state" where
  "checked v s = ((fst s)\<lparr>sr_versions_checked := sr_versions_checked (fst s) + 1\<rparr>, snd s @ [v])"

definition add_present :: "version \<Rightarrow> search_state \<Rightarrow> search_state" where
  "add_present v s = ((fst s)\<lparr>sr_present_in := sr_present_in (fst s) @ [v]\<rparr>, snd s)"

definition add_not_found :: "version \<Rightarrow> search_state \<Rightarrow> search_state" where
  "add_not_found v s = ((fst s)\<lparr>sr_not_found_in := sr_not_found_in (fst s) @ [v]\<rparr>, snd s)"

text \<open>The loop of the branch where the symbol is in the latest version's set.\<close>

fun scan_present ::
  "getter \<Rightarrow> symbol \<Rightarrow> api_type \<Rightarrow> bool \<Rightarrow> version list \<Rightarrow> search_state \<Rightarrow> search_state" where
  "scan_present get api_name api_type full_scan [] s = s"
| "scan_present get api_name api_type full_scan (version # rest) s =
     (let s1 = checked version s in
      if api_name \<in> get version api_type
      then scan_present get api_name api_type full_scan rest (add_present version s1)
      else
        let s2 = add_not_found version s1
        in if \<not> full_scan then s2
           else scan_present get api_name api_type full_scan rest s2)"

text \<open>The inner loop over \<open>older_version\<close> of the other branch.\<close>

fun walk_older ::
  "getter \<Rightarrow> symbol \<Rightarrow> api_type \<Rightarrow> version list \<Rightarrow> search_state \<Rightarrow> search_state" where
  "walk_older get api_name api_type [] s = s"
| "walk_older get api_name api_type (older_version # rest) s =
     (let s1 = checked older_version s in
      if api_name \<in> get older_version api_type
      then walk_older get api_name api_type rest (add_present older_version s1)
      else add_not_found older_version s1)"

text \<open>
  The outer loop of the branch where the symbol is not in the latest version's set;
  \<open>vrev\<close> is \<open>versions_reversed\<close>, needed for the slice the inner loop walks.
\<close>

fun scan_absent ::
  "getter \<Rightarrow> symbol \<Rightarrow> api_type \<Rightarrow> bool \<Rightarrow> version list \<Rightarrow> version list \<Rightarrow>
   search_state \<Rightarrow> search_state" where
  "scan_absent get api_name api_type full_scan vrev [] s = s"
| "scan_absent get api_name api_type full_scan vrev (version # rest) s =
     (let s1 = checked version s in
      if api_name \<in> get version api_type
      then
        let s2 = add_present version s1
        in if \<not> full_scan
           then walk_older get api_name api_type (drop (index vrev version + 1) vrev) s2
           else scan_absent get api_name api_type full_scan vrev rest s2
      else scan_absent get api_name api_type full_scan vrev rest (add_not_found version s1))"

text \<open>
  \<open>sorted(result['present_in'], key=lambda v: CUDA_VERSIONS.index(v))\<close> is the stable sort
  \<open>sort_key (index vs)\<close>. \<open>versions_reversed[0]\<close> raises \<open>IndexError\<close> on an empty list. The
  flag \<open>verbose\<close> only changes what is printed. The version list \<open>vs\<close> is the global
  \<open>CUDA_VERSIONS\<close> in the source.
\<close>

definition find_api_history ::
  "version list \<Rightarrow> getter \<Rightarrow> symbol \<Rightarrow> api_type \<Rightarrow> bool \<Rightarrow> bool \<Rightarrow> error + search_state" where
  "find_api_history vs get api_name api_type verbose full_scan =
     (let result = \<lparr>sr_api_name = api_name, sr_api_type = api_type, sr_introduced = None,
                    sr_removed = None, sr_present_in = [], sr_not_found_in = [],
                    sr_versions_checked = 0\<rparr>;
          versions_reversed = rev vs
      in case versions_reversed of
        [] \<Rightarrow> Inl IndexError
      | latest # older \<Rightarrow>
          (let s0 = checked latest (result, []) in
           if api_name \<in> get latest api_type
           then
             let s1 = scan_present get api_name api_type full_scan older (add_present latest s0);
                 present_in = sort_key (index vs) (sr_present_in (fst s1))
             in Inr ((fst s1)\<lparr>sr_present_in := present_in,
                               sr_introduced := Some (hd present_in)\<rparr>, snd s1)
           else
             let s1 = scan_absent get api_name api_type full_scan versions_reversed older
                        (add_not_found latest s0);
                 present_in = sort_key (index vs) (sr_present_in (fst s1));
                 r1 = (fst s1)\<lparr>sr_present_in := present_in\<rparr>
             in if present_in \<noteq> []
                then
                  let r2 = r1\<lparr>sr_introduced := Some (hd present_in)\<rparr>;
                      last_present_idx = index vs (last present_in)
                  in if last_present_idx + 1 < length vs
                     then Inr (r2\<lparr>sr_removed := Some (vs ! (last_present_idx + 1))\<rparr>, snd s1)
                     else Inr (r2, snd s1)
                else Inr (r1, snd s1)))"





section \<open>Catalog Builder (\<open>cuda_api_changelog.py\<close>)\<close>

text \<open>
  A Python \<open>dict\<close> keeps its keys in insertion order; it is an association list here, written
  with \<open>dict_set\<close> (\<open>d[k] = v\<close>). Every lookup \<open>version_apis[version]\<close> of the source is at a
  key of the dictionary (lemma \<open>apis_at_fetch_all_versions\<close>), so its \<open>KeyError\<close> cannot arise;
  \<open>apis_at\<close> returns the empty set outside the keys.
\<close>

fun dict_set :: "'k \<Rightarrow> 'v \<Rightarrow> ('k \<times> 'v) list \<Rightarrow> ('k \<times> 'v) list" where
  "dict_set k v [] = [(k, v)]"
| "dict_set k v (p # ps) = (if fst p = k then (k, v) # ps else p # dict_set k v ps)"

definition apis_at :: "(version \<times> symbol set) list \<Rightarrow> version \<Rightarrow> symbol set" where
  "apis_at d v = (case map_of d v of Some s \<Rightarrow> s | None \<Rightarrow> {})"

text \<open>The inner loop \<open>for api_type in api_types: apis.update(...)\<close>, shared by both builders.\<close>

definition apis_of_types :: "getter \<Rightarrow> api_type list \<Rightarrow> version \<Rightarrow> symbol set" where
  "apis_of_types get api_types version =
     fold (\<lambda>api_type apis. apis \<union> get version api_type) api_types {}"

definition fetch_all_versions ::
  "getter \<Rightarrow> version list \<Rightarrow> api_type list \<Rightarrow> (version \<times> symbol set) list" where
  "fetch_all_versions get versions api_types =
     fold (\<lambda>version d. dict_set version (apis_of_types get api_types version) d) versions []"

text \<open>An entry of \<open>catalog['apis']\<close>, and the summary.\<close>

record lifecycle =
  lc_introduced :: "version option"
  lc_removed :: "version option"
  lc_status :: string
  lc_present_in :: "version list"

record catalog_summary =
  cs_total :: nat
  cs_present :: nat
  cs_removed :: nat
  cs_introduced_in_range :: nat
  cs_already_present :: nat

text \<open>The catalog without its time stamp \<open>'generated'\<close>.\<close>

record catalog =
  cat_api_types :: "api_type list"
  cat_api_type :: string
  cat_since :: version
  cat_until :: version
  cat_total_apis :: nat
  cat_apis :: "(symbol \<times> lifecycle) list"
  cat_summary :: catalog_summary

text \<open>
  The loop \<open>for version in versions\<close> for one symbol; the state is
  \<open>(first_seen, removed, present_in)\<close>.
\<close>

fun scan_versions ::
  "(version \<times> symbol set) list \<Rightarrow> symbol \<Rightarrow> version list \<Rightarrow>
   version option \<times> version option \<times> version list \<Rightarrow>
   version option \<times> version option \<times> version list" where
  "scan_versions d api [] st = st"
| "scan_versions d api (version # rest) (first_seen, removed, present_in) =
     (if api \<in> apis_at d version
      then scan_versions d api rest
             (if first_seen = None then Some version else first_seen, removed,
              present_in @ [version])
      else scan_versions d api rest
             (first_seen,
              if present_in \<noteq> [] \<and> removed = None then Some version else removed,
              present_in))"

definition catalog_entry :: "version list \<Rightarrow> (version \<times> symbol set) list \<Rightarrow> symbol \<Rightarrow> lifecycle" where
  "catalog_entry versions d api =
     (case scan_versions d api versions (None, None, []) of
        (first_seen, removed, present_in) \<Rightarrow>
          \<lparr>lc_introduced = (if first_seen \<noteq> Some (hd versions) then first_seen else None),
           lc_removed = removed,
           lc_status = (if api \<in> apis_at d (last versions) then ''present''
                        else if present_in \<noteq> [] then ''removed''
                        else ''never_present''),
           lc_present_in = present_in\<rparr>)"

text \<open>\<open>" + ".join(api_types) if len(api_types) > 1 else api_types[0]\<close>, on a non-empty list.\<close>

fun join_plus :: "string list \<Rightarrow> string" where
  "join_plus [] = []"
| "join_plus [x] = x"
| "join_plus (x # y # ys) = x @ '' + '' @ join_plus (y # ys)"

definition default_api_types :: "api_type list option \<Rightarrow> api_type list" where
  "default_api_types api_types =
     (case api_types of None \<Rightarrow> [''runtime'', ''driver''] | Some ts \<Rightarrow> ts)"

text \<open>
  \<open>generate_api_catalog(since, until, api_types)\<close>. \<open>api_types[0]\<close> raises \<open>IndexError\<close> on an
  empty list of categories, and so does \<open>versions[0]\<close> on an empty range.
\<close>

definition generate_api_catalog ::
  "version list \<Rightarrow> getter \<Rightarrow> string option \<Rightarrow> string option \<Rightarrow> api_type list option \<Rightarrow>
   error + catalog" where
  "generate_api_catalog vs get since until api_types0 =
     (let api_types = default_api_types api_types0 in
      case get_version_range vs since until of
        Inl e \<Rightarrow> Inl e
      | Inr versions \<Rightarrow>
          if api_types = [] then Inl IndexError
          else if versions = [] then Inl IndexError
          else
            let version_apis = fetch_all_versions get versions api_types;
                all_apis = \<Union> (set (map snd version_apis));
                apis = map (\<lambda>api. (api, catalog_entry versions version_apis api))
                         (sorted_list_of_set all_apis)
            in Inr \<lparr>cat_api_types = api_types,
                    cat_api_type = join_plus api_types,
                    cat_since = hd versions,
                    cat_until = last versions,
                    cat_total_apis = card all_apis,
                    cat_apis = apis,
                    cat_summary =
                      \<lparr>cs_total = card all_apis,
                       cs_present = length (filter (\<lambda>a. lc_status a = ''present'') (map snd apis)),
                       cs_removed = length (filter (\<lambda>a. lc_status a = ''removed'') (map snd apis)),
                       cs_introduced_in_range =
                         length (filter (\<lambda>a. lc_introduced a \<noteq> None) (map snd apis)),
                       cs_already_present =
                         length (filter (\<lambda>a. lc_introduced a = None \<and> lc_present_in a \<noteq> [])
                                   (map snd apis))\<rparr>\<rparr>)"

section \<open>Changelog Builder (\<open>cuda_api_changelog.py\<close>)\<close>

text \<open>An element of \<open>changelog['versions']\<close>, the summary, and the changelog without its time stamp.\<close>

record version_info =
  vi_version :: version
  vi_previous :: version
  vi_total_apis :: nat
  vi_added :: "symbol list"
  vi_removed :: "symbol list"
  vi_added_count :: nat
  vi_removed_count :: nat

record changelog_summary =
  sm_total_added :: nat
  sm_total_removed :: nat
  sm_all_added :: "symbol list"
  sm_all_removed :: "symbol list"
  sm_net_new :: "symbol list"
  sm_net_removed :: "symbol list"

record changelog =
  cl_api_types :: "api_type list"
  cl_api_type :: string
  cl_since :: version
  cl_until :: version
  cl_versions :: "version_info list"
  cl_summary :: changelog_summary

text \<open>
  The state of the loop \<open>for i, version in enumerate(versions)\<close>: the previous version and
  its set (\<open>None\<close> before the first iteration), the entries appended so far, the two running
  totals and the two running lists.
\<close>

record loop_state =
  ls_prev :: "(version \<times> symbol set) option"
  ls_versions :: "version_info list"
  ls_total_added :: nat
  ls_total_removed :: nat
  ls_all_added :: "symbol list"
  ls_all_removed :: "symbol list"

definition changelog_step :: "getter \<Rightarrow> api_type list \<Rightarrow> version \<Rightarrow> loop_state \<Rightarrow> loop_state" where
  "changelog_step get api_types version st =
     (let apis = apis_of_types get api_types version;
          st1 = (case ls_prev st of
                   None \<Rightarrow> st
                 | Some (prev_version, prev_apis) \<Rightarrow>
                     (let added = sorted_list_of_set (apis - prev_apis);
                          removed = sorted_list_of_set (prev_apis - apis);
                          info = \<lparr>vi_version = version, vi_previous = prev_version,
                                  vi_total_apis = card apis, vi_added = added,
                                  vi_removed = removed, vi_added_count = length added,
                                  vi_removed_count = length removed\<rparr>
                      in st\<lparr>ls_versions := ls_versions st @ [info],
                            ls_total_added := ls_total_added st + length added,
                            ls_total_removed := ls_total_removed st + length removed,
                            ls_all_added := ls_all_added st @ added,
                            ls_all_removed := ls_all_removed st @ removed\<rparr>))
      in st1\<lparr>ls_prev := Some (version, apis)\<rparr>)"

definition initial_state :: loop_state where
  "initial_state = \<lparr>ls_prev = None, ls_versions = [], ls_total_added = 0,
                     ls_total_removed = 0, ls_all_added = [], ls_all_removed = []\<rparr>"

text \<open>
  \<open>generate_changelog(since, until, api_types, verbose)\<close>. Fewer than two versions end the
  process with \<open>sys.exit(1)\<close>; \<open>verbose\<close> only changes what is printed.
\<close>

definition generate_changelog ::
  "version list \<Rightarrow> getter \<Rightarrow> string option \<Rightarrow> string option \<Rightarrow> api_type list option \<Rightarrow> bool \<Rightarrow>
   error + changelog" where
  "generate_changelog vs get since until api_types0 verbose =
     (let api_types = default_api_types api_types0 in
      case get_version_range vs since until of
        Inl e \<Rightarrow> Inl e
      | Inr versions \<Rightarrow>
          if length versions < 2 then Inl (SystemExit 1)
          else if api_types = [] then Inl IndexError
          else
            let st = fold (changelog_step get api_types) versions initial_state;
                all_added = sorted_list_of_set (set (ls_all_added st));
                all_removed = sorted_list_of_set (set (ls_all_removed st));
                net_new = set all_added - set all_removed;
                net_removed = set all_removed - set all_added
            in Inr \<lparr>cl_api_types = api_types,
                    cl_api_type = join_plus api_types,
                    cl_since = hd versions,
                    cl_until = last versions,
                    cl_versions = ls_versions st,
                    cl_summary =
                      \<lparr>sm_total_added = ls_total_added st,
                       sm_total_removed = ls_total_removed st,
                       sm_all_added = all_added,
                       sm_all_removed = all_removed,
                       sm_net_new = sorted_list_of_set net_new,
                       sm_net_removed = sorted_list_of_set net_removed\<rparr>\<rparr>)"



section \<open>Example inputs\<close>

text \<open>
  The sets of the specification's scenarios A and B over the versions \<open>1.0, 2.0, 3.0\<close>:
  \<open>f\<close> in 1.0 and 2.0, \<open>g\<close> in 2.0 and 3.0, both in the runtime category.
\<close>

definition scenario_versions :: "version list" where
  "scenario_versions = [''1.0'', ''2.0'', ''3.0'']"

definition scenario_get :: getter where
  "scenario_get v t =
     (if t \<noteq> ''runtime'' then {}
      else if v = ''1.0'' then {''f''}
      else if v = ''2.0'' then {''f'', ''g''}
      else if v = ''3.0'' then {''g''}
      else {})"

text \<open>The version list of the specification's scenario C.\<close>

definition resolver_versions :: "version list" where
  "resolver_versions = [''1.0'', ''2.0'', ''2.1'', ''3.0'']"

text \<open>A symbol that vanishes and comes back: \<open>f\<close> in 1.0 and 3.0 but not in 2.0 or 4.0.\<close>

definition flicker_versions :: "version list" where
  "flicker_versions = [''1.0'', ''2.0'', ''3.0'', ''4.0'']"

definition flicker_get :: getter where
  "flicker_get v t = (if t = ''runtime'' \<and> (v = ''1.0'' \<or> v = ''3.0'') then {''f''} else {})"



definition empty_store :: store where
  "empty_store = \<lparr>files = Map.empty, writable = True\<rparr>"



text \<open>
  A machine on which the first candidate page of the runtime documentation of 12.0.0 can be
  fetched and names one symbol.
\<close>

definition online_env :: env where
  "online_env =
     \<lparr>fetch_url = (\<lambda>u. if u = ARCHIVE_BASE @ ''/12.0.0/cuda-runtime-api/index.html''
                          then ''<html>'' else []),
      extract_apis_from_html = (\<lambda>h. if h = [] then {} else {''cudaMalloc''}),
      group_links = (\<lambda>h. [])\<rparr>"

text \<open>The symbol of the specification's scenario D: present in 3.0 only.\<close>

definition newest_only_get :: getter where
  "newest_only_get v t = (if v = ''3.0'' then {''cudaNew''} else {})"

text \<open>The catalog of scenario A: the two entries and the whole result.\<close>

definition scenario_entry_f :: lifecycle where
  "scenario_entry_f = \<lparr>lc_introduced = None, lc_removed = Some ''3.0'', lc_status = ''removed'',
                        lc_present_in = [''1.0'', ''2.0'']\<rparr>"

definition scenario_entry_g :: lifecycle where
  "scenario_entry_g = \<lparr>lc_introduced = Some ''2.0'', lc_removed = None, lc_status = ''present'',
                        lc_present_in = [''2.0'', ''3.0'']\<rparr>"

definition scenario_catalog :: catalog where
  "scenario_catalog =
     \<lparr>cat_api_types = [''runtime'', ''driver''], cat_api_type = ''runtime + driver'',
      cat_since = ''1.0'', cat_until = ''3.0'', cat_total_apis = 2,
      cat_apis = [(''f'', scenario_entry_f), (''g'', scenario_entry_g)],
      cat_summary = \<lparr>cs_total = 2, cs_present = 1, cs_removed = 1,
                      cs_introduced_in_range = 1, cs_already_present = 1\<rparr>\<rparr>"

text \<open>
  The entry that the specification prescribes for a consecutive pair \<open>(prev, curr)\<close> of the
  range: the sorted set differences of the two versions' sets, with their counts. It is
  written from the specification's words, to be compared with what the loop of
  \<open>generate_changelog\<close> appends.
\<close>

definition spec_entry :: "getter \<Rightarrow> api_type list \<Rightarrow> version \<Rightarrow> version \<Rightarrow> version_info" where
  "spec_entry get api_types previous version =
     \<lparr>vi_version = version, vi_previous = previous,
      vi_total_apis = card (apis_of_types get api_types version),
      vi_added = sorted_list_of_set
                   (apis_of_types get api_types version - apis_of_types get api_types previous),
      vi_removed = sorted_list_of_set
                     (apis_of_types get api_types previous - apis_of_types get api_types version),
      vi_added_count = card (apis_of_types get api_types version - apis_of_types get api_types previous),
      vi_removed_count = card (apis_of_types get api_types previous - apis_of_types get api_types version)\<rparr>"

text \<open>The changelog of scenario B.\<close>

definition scenario_changelog :: changelog where
  "scenario_changelog =
     \<lparr>cl_api_types = [''runtime'', ''driver''], cl_api_type = ''runtime + driver'',
      cl_since = ''1.0'', cl_until = ''3.0'',
      cl_versions =
        [\<lparr>vi_version = ''2.0'', vi_previous = ''1.0'', vi_total_apis = 2, vi_added = [''g''],
          vi_removed = [], vi_added_count = 1, vi_removed_count = 0\<rparr>,
         \<lparr>vi_version = ''3.0'', vi_previous = ''2.0'', vi_total_apis = 1, vi_added = [],
          vi_removed = [''f''], vi_added_count = 0, vi_removed_count = 1\<rparr>],
      cl_summary =
        \<lparr>sm_total_added = 1, sm_total_removed = 1, sm_all_added = [''g''],
         sm_all_removed = [''f''], sm_net_new = [''g''], sm_net_removed = [''f'']\<rparr>\<rparr>"

section \<open>Properties of the Version Resolver\<close>

subsection \<open>Auxiliary facts\<close>

lemma numeric_match_mem: "numeric_match tp vs = Inr (Some v) \<Longrightarrow> v \<in> set vs"
  by (induction vs) (auto split: option.splits if_splits)

lemma find_closest_version_mem:
  "find_closest_version vs target = Inr (Some v) \<Longrightarrow> v \<in> set vs"
  by (auto simp: find_closest_version_def find_Some_iff split: if_splits option.splits
           dest: numeric_match_mem)

lemma index_less: "v \<in> set vs \<Longrightarrow> index vs v < length vs"
  by (induction vs) (auto simp: index_def)

lemma nth_index: "v \<in> set vs \<Longrightarrow> vs ! index vs v = v"
  by (induction vs) (auto simp: index_def)

lemma index_nth: "distinct vs \<Longrightarrow> k < length vs \<Longrightarrow> index vs (vs ! k) = k"
proof (induction vs arbitrary: k)
  case Nil
  then show ?case by simp
next
  case (Cons a vs)
  then show ?case by (cases k) (auto simp: index_def)
qed

lemma index_inj: "a \<in> set vs \<Longrightarrow> index vs a = index vs b \<Longrightarrow> a = b"
  by (induction vs) (auto simp: index_def split: if_splits)

lemma find_closest_version_exact:
  "target \<in> set vs \<Longrightarrow> find_closest_version vs target = Inr (Some target)"
  by (simp add: find_closest_version_def)

lemma find_closest_version_prefix:
  "target \<notin> set vs \<Longrightarrow> find (\<lambda>v. prefix target v) vs = Some v \<Longrightarrow>
   find_closest_version vs target = Inr (Some v)"
  by (simp add: find_closest_version_def)

lemma find_closest_version_numeric:
  "target \<notin> set vs \<Longrightarrow> find (\<lambda>v. prefix target v) vs = None \<Longrightarrow>
   int_parts target = Some tp \<Longrightarrow>
   find_closest_version vs target = numeric_match tp vs"
  by (simp add: find_closest_version_def)

lemma numeric_match_find:
  assumes "\<forall>v \<in> set vs. \<exists>vp. int_parts v = Some vp \<and> 2 \<le> length vp"
  shows "numeric_match tp vs =
     Inr (find (\<lambda>v. hd (the (int_parts v)) = hd tp \<and>
                     (length tp = 1 \<or> the (int_parts v) ! 1 \<ge> tp ! 1)) vs)"
  using assms by (induction vs) (auto split: option.splits)

lemma find_closest_version_unparsable:
  "target \<notin> set vs \<Longrightarrow> find (\<lambda>v. prefix target v) vs = None \<Longrightarrow>
   int_parts target = None \<Longrightarrow> find_closest_version vs target = Inl ValueError"
  by (simp add: find_closest_version_def)

lemma set_take_index:
  "distinct vs \<Longrightarrow> set (take n vs) = {v \<in> set vs. index vs v < n}"
proof (induction vs arbitrary: n)
  case Nil
  then show ?case by simp
next
  case (Cons a vs)
  then show ?case by (cases n) (auto simp: index_def)
qed

lemma set_drop_index:
  "distinct vs \<Longrightarrow> set (drop i vs) = {v \<in> set vs. i \<le> index vs v}"
proof (induction vs arbitrary: i)
  case Nil
  then show ?case by simp
next
  case (Cons a vs)
  then show ?case by (cases i) (auto simp: index_def)
qed

lemma index_take: "v \<in> set (take n vs) \<Longrightarrow> index (take n vs) v = index vs v"
proof (induction vs arbitrary: n)
  case Nil
  then show ?case by simp
next
  case (Cons a vs)
  then show ?case by (cases n) (auto simp: index_def)
qed

lemma slice_set:
  assumes "distinct vs"
  shows "set (drop i (take (Suc j) vs)) = {v \<in> set vs. i \<le> index vs v \<and> index vs v \<le> j}"
proof -
  have "distinct (take (Suc j) vs)" using assms by simp
  then have "set (drop i (take (Suc j) vs))
             = {v \<in> set (take (Suc j) vs). i \<le> index (take (Suc j) vs) v}"
    by (rule set_drop_index)
  also have "\<dots> = {v \<in> set (take (Suc j) vs). i \<le> index vs v}"
    using index_take [of _ "Suc j" vs] by auto
  also have "\<dots> = {v \<in> set vs. i \<le> index vs v \<and> index vs v \<le> j}"
    unfolding set_take_index [OF assms] by auto
  finally show ?thesis .
qed

lemma slice_sorted:
  assumes "distinct vs"
  shows "sorted_wrt (\<lambda>a b. index vs a < index vs b) (drop i (take j vs))"
proof -
  have "sorted_wrt (\<lambda>a b. index vs a < index vs b) vs"
    using assms by (auto simp: sorted_wrt_iff_nth_less index_nth)
  then have "sorted_wrt (\<lambda>a b. index vs a < index vs b) (take j vs)"
    by (rule sorted_wrt_take)
  then show ?thesis
    by (rule sorted_wrt_drop)
qed

subsection \<open>Resolution of a token\<close>

text \<open>
  Claim C5. The resolver returns an exact match when there is one
  (\<open>find_closest_version_exact\<close>), else the first version the token is a prefix of
  (\<open>find_closest_version_prefix\<close>), else the first version whose major agrees and whose minor
  is at least the requested one (\<open>find_closest_version_numeric\<close>, \<open>numeric_match_find\<close>);
  scenario C evaluates to \<open>2.0\<close> and to "not found" (\<open>scenario_C\<close>). The claim's last part,
  that every token matching no version is reported as not found, fails: a token that matches
  no version by equality or prefix and has a field that is not an integer literal makes
  \<open>int(x)\<close> raise \<open>ValueError\<close>, which nothing catches, where the callers of the resolver
  expect \<open>None\<close>. The theorem evaluates the resolver and the range operation on the token
  \<open>abc\<close>.
\<close>

theorem find_closest_version_non_numeric_raises:
  "find_closest_version CUDA_VERSIONS ''abc'' = Inl ValueError
   \<and> get_version_range CUDA_VERSIONS (Some ''abc'') None = Inl ValueError"
  by (simp add: get_version_range_def resolve_or_exit_def find_closest_version_def
        CUDA_VERSIONS_def int_parts_def py_int_def strip_def is_space_def py_nat_def
        is_digit_def)

lemma scenario_C:
  "find_closest_version resolver_versions ''2'' = Inr (Some ''2.0'')
   \<and> find_closest_version resolver_versions ''9'' = Inr None"
  by (simp add: resolver_versions_def find_closest_version_def int_parts_def py_int_def
        strip_def is_space_def py_nat_def is_digit_def digit_val_def)

subsection \<open>The range of versions\<close>

text \<open>
  Claim C6, as stated, fails: when the since token resolves to a version ranked after the
  until token's, the slice is empty. Over the versions \<open>1.0, 2.0, 2.1, 3.0\<close> the tokens \<open>3\<close>
  and \<open>2\<close> both resolve, and the range from \<open>3\<close> to \<open>2\<close> is the empty list.
\<close>

theorem get_version_range_reversed_empty:
  "find_closest_version resolver_versions ''3'' = Inr (Some ''3.0'')
   \<and> find_closest_version resolver_versions ''2'' = Inr (Some ''2.0'')
   \<and> get_version_range resolver_versions (Some ''3'') (Some ''2'') = Inr []"
  by (simp add: resolver_versions_def get_version_range_def resolve_or_exit_def
        find_closest_version_def index_def)

text \<open>
  Claim C6, amended. Over a version list without duplicates and without the empty string,
  for a since token and a non-empty until token that both resolve, the range is the slice
  of the version list from the rank of the resolved since version to the rank of the resolved
  until version, both included: it holds exactly the versions whose rank lies between the
  two, in ascending rank order. It is non-empty exactly when the since version is not ranked
  after the until version.
\<close>

theorem get_version_range_slice:
  assumes "distinct vs" and "[] \<notin> set vs"
    and "find_closest_version vs s = Inr (Some sv)"
    and "find_closest_version vs u = Inr (Some uv)"
    and "u \<noteq> []"
  shows "\<exists>r. get_version_range vs (Some s) (Some u) = Inr r
     \<and> r = drop (index vs sv) (take (index vs uv + 1) vs)
     \<and> set r = {v \<in> set vs. index vs sv \<le> index vs v \<and> index vs v \<le> index vs uv}
     \<and> sorted_wrt (\<lambda>a b. index vs a < index vs b) r
     \<and> (r \<noteq> [] \<longleftrightarrow> index vs sv \<le> index vs uv)"
proof -
  have sv: "sv \<in> set vs" and uv: "uv \<in> set vs"
    using assms(3,4) by (auto dest: find_closest_version_mem)
  with assms(2) have ne: "sv \<noteq> []" "uv \<noteq> []" by auto
  have r: "get_version_range vs (Some s) (Some u)
           = Inr (drop (index vs sv) (take (index vs uv + 1) vs))"
    using assms(3,4,5) ne by (simp add: get_version_range_def resolve_or_exit_def)
  have j: "index vs uv < length vs" using uv by (rule index_less)
  have "set (drop (index vs sv) (take (index vs uv + 1) vs))
        = {v \<in> set vs. index vs sv \<le> index vs v \<and> index vs v \<le> index vs uv}"
    using slice_set [OF assms(1)] by simp
  moreover have "sorted_wrt (\<lambda>a b. index vs a < index vs b)
                   (drop (index vs sv) (take (index vs uv + 1) vs))"
    using assms(1) by (rule slice_sorted)
  moreover have "drop (index vs sv) (take (index vs uv + 1) vs) \<noteq> []
                 \<longleftrightarrow> index vs sv \<le> index vs uv"
    using j by auto
  ultimately show ?thesis using r by simp
qed


theorem get_version_range_slice_witness:
  "distinct resolver_versions \<and> [] \<notin> set resolver_versions
   \<and> find_closest_version resolver_versions ''2'' = Inr (Some ''2.0'')
   \<and> find_closest_version resolver_versions ''3'' = Inr (Some ''3.0'')
   \<and> ''3'' \<noteq> []
   \<and> (\<exists>r. get_version_range resolver_versions (Some ''2'') (Some ''3'') = Inr r
        \<and> r = drop (index resolver_versions ''2.0'')
                 (take (index resolver_versions ''3.0'' + 1) resolver_versions)
        \<and> set r = {v \<in> set resolver_versions.
                     index resolver_versions ''2.0'' \<le> index resolver_versions v
                     \<and> index resolver_versions v \<le> index resolver_versions ''3.0''}
        \<and> sorted_wrt (\<lambda>a b. index resolver_versions a < index resolver_versions b) r
        \<and> (r \<noteq> [] \<longleftrightarrow> index resolver_versions ''2.0'' \<le> index resolver_versions ''3.0''))"
proof -
  have h1: "distinct resolver_versions" and h2: "[] \<notin> set resolver_versions"
    by (simp_all add: resolver_versions_def)
  have h3: "find_closest_version resolver_versions ''2'' = Inr (Some ''2.0'')"
    and h4: "find_closest_version resolver_versions ''3'' = Inr (Some ''3.0'')"
    by (simp_all add: resolver_versions_def find_closest_version_def)
  have h5: "''3'' \<noteq> []" by simp
  from get_version_range_slice [OF h1 h2 h3 h4 h5] h1 h2 h3 h4 h5
  show ?thesis by blast
qed

section \<open>Properties of the Version Symbol Cache\<close>



text \<open>
  A non-empty outcome is written, as the sorted list of its names.
\<close>

lemma nonempty_outcome_cached:
  "fst (get_api_list_for_version online_env empty_store ''12.0.0'' ''runtime'' True)
     = {''cudaMalloc''}
   \<and> files (snd (get_api_list_for_version online_env empty_store ''12.0.0'' ''runtime'' True))
        (get_cache_path ''12.0.0'' ''runtime'') = Some (Listing [''cudaMalloc''])"
  by (simp add: get_api_list_for_version_def online_env_def empty_store_def urls_to_try_def
        api_doc_of_def deprecated_url_def ARCHIVE_BASE_def LATEST_BASE_def CUDA_VERSIONS_def
        get_cache_path_def Let_def)



section \<open>Properties of the Boundary Search Engine\<close>

subsection \<open>Sorting by rank\<close>

lemma insort_key_snoc:
  "\<forall>x \<in> set zs. f x < f z \<Longrightarrow> insort_key f z zs = zs @ [z]"
  by (induction zs) auto

lemma sort_key_rev:
  "sorted_wrt (\<lambda>a b. f a < f b) ys \<Longrightarrow> sort_key f (rev ys) = ys"
proof (induction ys rule: rev_induct)
  case Nil
  then show ?case by simp
next
  case (snoc z zs)
  then have "sort_key f (rev zs) = zs" and "\<forall>x \<in> set zs. f x < f z"
    by (auto simp: sorted_wrt_append)
  then show ?case by (simp add: insort_key_snoc)
qed

lemma sorted_wrt_index: "distinct vs \<Longrightarrow> sorted_wrt (\<lambda>a b. index vs a < index vs b) vs"
  by (auto simp: sorted_wrt_iff_nth_less index_nth)

lemma sort_key_index_filter:
  assumes "distinct vs"
  shows "sort_key (index vs) (filter P (rev vs)) = filter P vs"
proof -
  have "sorted_wrt (\<lambda>a b. index vs a < index vs b) (filter P vs)"
    using assms by (intro sorted_wrt_filter sorted_wrt_index)
  then have "sort_key (index vs) (rev (filter P vs)) = filter P vs"
    by (rule sort_key_rev)
  then show ?thesis by (simp add: rev_filter)
qed

lemma sort_key_index_run:
  assumes "distinct vs"
  shows "sort_key (index vs) (takeWhile P (dropWhile Q (rev vs)))
         = rev (takeWhile P (dropWhile Q (rev vs)))"
proof -
  have "sorted_wrt (\<lambda>a b. index vs b < index vs a) (rev vs)"
    using sorted_wrt_index [OF assms] by (simp add: sorted_wrt_rev)
  then have "sorted_wrt (\<lambda>a b. index vs b < index vs a) (takeWhile P (dropWhile Q (rev vs)))"
    by (intro sorted_wrt_takeWhile sorted_wrt_dropWhile)
  then have "sorted_wrt (\<lambda>a b. index vs a < index vs b)
               (rev (takeWhile P (dropWhile Q (rev vs))))"
    by (simp add: sorted_wrt_rev)
  from sort_key_rev [OF this] show ?thesis by simp
qed

subsection \<open>The three loops\<close>

lemma scan_present_fields:
  "sr_present_in (fst (scan_present get api t fs xs s))
     = sr_present_in (fst s) @ (if fs then filter (\<lambda>v. api \<in> get v t) xs
                                else takeWhile (\<lambda>v. api \<in> get v t) xs)
   \<and> sr_removed (fst (scan_present get api t fs xs s)) = sr_removed (fst s)
   \<and> sr_introduced (fst (scan_present get api t fs xs s)) = sr_introduced (fst s)"
  by (induction xs arbitrary: s) (auto simp: checked_def add_present_def add_not_found_def Let_def)

lemma walk_older_fields:
  "sr_present_in (fst (walk_older get api t xs s))
     = sr_present_in (fst s) @ takeWhile (\<lambda>v. api \<in> get v t) xs
   \<and> sr_removed (fst (walk_older get api t xs s)) = sr_removed (fst s)
   \<and> sr_introduced (fst (walk_older get api t xs s)) = sr_introduced (fst s)"
  by (induction xs arbitrary: s) (auto simp: checked_def add_present_def add_not_found_def Let_def)

lemma drop_index_suffix:
  assumes "distinct vrev" "suffix (v # rest) vrev"
  shows "drop (index vrev v + 1) vrev = rest"
proof -
  from assms(2) obtain pre where vrev: "vrev = pre @ v # rest"
    by (auto simp: suffix_def)
  with assms(1) have "v \<notin> set pre" by auto
  then have "takeWhile (\<lambda>x. x \<noteq> v) (pre @ v # rest) = pre"
    by (auto simp: takeWhile_tail)
  then show ?thesis by (simp add: vrev index_def)
qed

lemma scan_absent_fields:
  assumes "distinct vrev" "suffix xs vrev"
  shows "sr_present_in (fst (scan_absent get api t fs vrev xs s))
     = sr_present_in (fst s) @
         (if fs then filter (\<lambda>v. api \<in> get v t) xs
          else takeWhile (\<lambda>v. api \<in> get v t) (dropWhile (\<lambda>v. api \<notin> get v t) xs))
   \<and> sr_removed (fst (scan_absent get api t fs vrev xs s)) = sr_removed (fst s)
   \<and> sr_introduced (fst (scan_absent get api t fs vrev xs s)) = sr_introduced (fst s)"
  using assms(2)
proof (induction xs arbitrary: s)
  case Nil
  then show ?case by simp
next
  case (Cons v rest)
  then have suf: "suffix rest vrev" by (auto dest: suffix_ConsD)
  have d: "drop (Suc (index vrev v)) vrev = rest"
    using drop_index_suffix [OF assms(1) Cons.prems] by simp
  show ?case
  proof (cases fs)
    case True
    with Cons.IH [OF suf] show ?thesis
      by (simp add: Let_def checked_def add_present_def add_not_found_def)
  next
    case False
    with Cons.IH [OF suf] show ?thesis
      by (simp add: Let_def d walk_older_fields checked_def add_present_def add_not_found_def)
  qed
qed

lemma checked_count:
  "sr_versions_checked (fst (checked v s)) = Suc (sr_versions_checked (fst s))
   \<and> snd (checked v s) = snd s @ [v]"
  by (simp add: checked_def)

lemma scan_present_log:
  "sr_versions_checked (fst s) = length (snd s) + k \<Longrightarrow>
   sr_versions_checked (fst (scan_present get api t fs xs s))
     = length (snd (scan_present get api t fs xs s)) + k"
  by (induction xs arbitrary: s) (auto simp: checked_def add_present_def add_not_found_def Let_def)

lemma walk_older_log:
  "sr_versions_checked (fst s) = length (snd s) + k \<Longrightarrow>
   sr_versions_checked (fst (walk_older get api t xs s))
     = length (snd (walk_older get api t xs s)) + k"
  by (induction xs arbitrary: s) (auto simp: checked_def add_present_def add_not_found_def Let_def)

lemma scan_absent_log:
  "sr_versions_checked (fst s) = length (snd s) + k \<Longrightarrow>
   sr_versions_checked (fst (scan_absent get api t fs vrev xs s))
     = length (snd (scan_absent get api t fs vrev xs s)) + k"
  by (induction xs arbitrary: s)
     (auto simp: checked_def add_present_def add_not_found_def Let_def walk_older_log)

lemma scan_present_seen:
  "set (snd s) = set (sr_present_in (fst s)) \<union> set (sr_not_found_in (fst s)) \<Longrightarrow>
   set (snd (scan_present get api t fs xs s))
     = set (sr_present_in (fst (scan_present get api t fs xs s)))
       \<union> set (sr_not_found_in (fst (scan_present get api t fs xs s)))"
  by (induction xs arbitrary: s) (auto simp: checked_def add_present_def add_not_found_def Let_def)

lemma walk_older_seen:
  "set (snd s) = set (sr_present_in (fst s)) \<union> set (sr_not_found_in (fst s)) \<Longrightarrow>
   set (snd (walk_older get api t xs s))
     = set (sr_present_in (fst (walk_older get api t xs s)))
       \<union> set (sr_not_found_in (fst (walk_older get api t xs s)))"
  by (induction xs arbitrary: s) (auto simp: checked_def add_present_def add_not_found_def Let_def)

lemma scan_absent_seen:
  "set (snd s) = set (sr_present_in (fst s)) \<union> set (sr_not_found_in (fst s)) \<Longrightarrow>
   set (snd (scan_absent get api t fs vrev xs s))
     = set (sr_present_in (fst (scan_absent get api t fs vrev xs s)))
       \<union> set (sr_not_found_in (fst (scan_absent get api t fs vrev xs s)))"
  by (induction xs arbitrary: s)
     (auto simp: checked_def add_present_def add_not_found_def Let_def walk_older_seen)

subsection \<open>The search as a whole\<close>

lemma find_api_history_present:
  assumes "vs \<noteq> []" "distinct vs" "api \<in> get (last vs) t"
  shows "\<exists>s. find_api_history vs get api t vb fs = Inr s
     \<and> sr_removed (fst s) = None
     \<and> sr_present_in (fst s) = (if fs then filter (\<lambda>v. api \<in> get v t) vs
                                 else rev (takeWhile (\<lambda>v. api \<in> get v t) (rev vs)))
     \<and> sr_introduced (fst s) = Some (hd (sr_present_in (fst s)))"
proof -
  from assms(1) obtain older where r: "rev vs = last vs # older"
    by (cases vs rule: rev_cases) auto
  have unsorted: "[last vs] @ (if fs then filter (\<lambda>v. api \<in> get v t) older
                                else takeWhile (\<lambda>v. api \<in> get v t) older)
        = (if fs then filter (\<lambda>v. api \<in> get v t) (rev vs)
           else takeWhile (\<lambda>v. api \<in> get v t) (dropWhile (\<lambda>v. False) (rev vs)))"
    using assms(3) by (simp add: r)
  have sorted: "sort_key (index vs) (if fs then filter (\<lambda>v. api \<in> get v t) (rev vs)
           else takeWhile (\<lambda>v. api \<in> get v t) (dropWhile (\<lambda>v. False) (rev vs)))
         = (if fs then filter (\<lambda>v. api \<in> get v t) vs
            else rev (takeWhile (\<lambda>v. api \<in> get v t) (rev vs)))"
    using sort_key_index_filter [OF assms(2)] sort_key_index_run [OF assms(2), of _ "\<lambda>v. False"]
    by simp
  show ?thesis
    using assms(3) sorted
    by (simp add: find_api_history_def r Let_def scan_present_fields
          checked_def add_present_def unsorted [simplified] del: sort_key_simps)
qed


lemma find_api_history_absent:
  assumes "vs \<noteq> []" "distinct vs" "api \<notin> get (last vs) t"
  shows "\<exists>s. find_api_history vs get api t vb fs = Inr s
     \<and> sr_present_in (fst s)
         = (if fs then filter (\<lambda>v. api \<in> get v t) vs
            else rev (takeWhile (\<lambda>v. api \<in> get v t)
                       (dropWhile (\<lambda>v. api \<notin> get v t) (rev vs))))
     \<and> (sr_present_in (fst s) = [] \<longrightarrow>
           sr_introduced (fst s) = None \<and> sr_removed (fst s) = None)
     \<and> (sr_present_in (fst s) \<noteq> [] \<longrightarrow>
           sr_introduced (fst s) = Some (hd (sr_present_in (fst s)))
           \<and> sr_removed (fst s)
               = (if index vs (last (sr_present_in (fst s))) + 1 < length vs
                  then Some (vs ! (index vs (last (sr_present_in (fst s))) + 1))
                  else None))"
proof -
  from assms(1) obtain older where r: "rev vs = last vs # older"
    by (cases vs rule: rev_cases) auto
  have d: "distinct (rev vs)" using assms(2) by simp
  have suf: "suffix older (rev vs)" by (simp add: r suffix_def)
  note fields = scan_absent_fields [OF d suf]
  have older: "filter (\<lambda>v. api \<in> get v t) older = filter (\<lambda>v. api \<in> get v t) (rev vs)"
    "dropWhile (\<lambda>v. api \<notin> get v t) older = dropWhile (\<lambda>v. api \<notin> get v t) (rev vs)"
    using assms(3) by (simp_all add: r)
  show ?thesis
  proof (cases fs)
    case True
    have "sort_key (index vs) (filter (\<lambda>v. api \<in> get v t) older)
          = filter (\<lambda>v. api \<in> get v t) vs"
      unfolding older by (rule sort_key_index_filter [OF assms(2)])
    with True assms(3) show ?thesis
      by (simp add: find_api_history_def Let_def fields [unfolded r]
            checked_def add_not_found_def r del: sort_key_simps(2))
  next
    case False
    have "sort_key (index vs)
            (takeWhile (\<lambda>v. api \<in> get v t) (dropWhile (\<lambda>v. api \<notin> get v t) older))
          = rev (takeWhile (\<lambda>v. api \<in> get v t) (dropWhile (\<lambda>v. api \<notin> get v t) (rev vs)))"
      unfolding older by (rule sort_key_index_run [OF assms(2)])
    with False assms(3) show ?thesis
      by (simp add: find_api_history_def Let_def fields [unfolded r]
            checked_def add_not_found_def r del: sort_key_simps(2))
  qed
qed

lemma find_hd_filter: "find P xs = (case filter P xs of [] \<Rightarrow> None | x # _ \<Rightarrow> Some x)"
  by (induction xs) auto

lemma find_api_history_log:
  assumes "find_api_history vs get api t vb fs = Inr s"
  shows "sr_versions_checked (fst s) = length (snd s)
     \<and> set (snd s) = set (sr_present_in (fst s)) \<union> set (sr_not_found_in (fst s))"
proof (cases "rev vs")
  case Nil
  with assms show ?thesis by (simp add: find_api_history_def)
next
  case (Cons latest older)
  define r0 where "r0 = \<lparr>sr_api_name = api, sr_api_type = t, sr_introduced = None,
                    sr_removed = None, sr_present_in = [], sr_not_found_in = [],
                    sr_versions_checked = 0\<rparr>"
  show ?thesis
  proof (cases "api \<in> get latest t")
    case True
    define s1 where "s1 = scan_present get api t fs older (add_present latest (checked latest (r0, [])))"
    have c: "sr_versions_checked (fst s1) = length (snd s1) + 0"
      unfolding s1_def by (rule scan_present_log) (simp add: checked_def add_present_def r0_def)
    have e: "set (snd s1) = set (sr_present_in (fst s1)) \<union> set (sr_not_found_in (fst s1))"
      unfolding s1_def by (rule scan_present_seen) (simp add: checked_def add_present_def r0_def)
    from assms True Cons have "s = ((fst s1)\<lparr>sr_present_in := sort_key (index vs) (sr_present_in (fst s1)),
                     sr_introduced := Some (hd (sort_key (index vs) (sr_present_in (fst s1))))\<rparr>, snd s1)"
      by (simp add: find_api_history_def Let_def s1_def r0_def)
    with c e show ?thesis by simp
  next
    case False
    define s1 where "s1 = scan_absent get api t fs (rev vs) older (add_not_found latest (checked latest (r0, [])))"
    have c: "sr_versions_checked (fst s1) = length (snd s1) + 0"
      unfolding s1_def by (rule scan_absent_log) (simp add: checked_def add_not_found_def r0_def)
    have e: "set (snd s1) = set (sr_present_in (fst s1)) \<union> set (sr_not_found_in (fst s1))"
      unfolding s1_def by (rule scan_absent_seen) (simp add: checked_def add_not_found_def r0_def)
    from assms False Cons have "snd s = snd s1 \<and> sr_versions_checked (fst s) = sr_versions_checked (fst s1)
         \<and> sr_present_in (fst s) = sort_key (index vs) (sr_present_in (fst s1))
         \<and> sr_not_found_in (fst s) = sr_not_found_in (fst s1)"
      by (auto simp: find_api_history_def Let_def s1_def r0_def split: if_splits)
    with c e show ?thesis by simp
  qed
qed

lemma find_api_history_total:
  assumes "vs \<noteq> []"
  shows "\<exists>s. find_api_history vs get api t vb fs = Inr s"
proof -
  from assms obtain older where r: "rev vs = last vs # older"
    by (cases vs rule: rev_cases) auto
  show ?thesis
    by (simp add: find_api_history_def Let_def r del: sort_key_simps)
qed

lemma scan_present_subset:
  "set (sr_present_in (fst (scan_present get api t fs xs s)))
   \<subseteq> set (sr_present_in (fst s)) \<union> set xs"
  using scan_present_fields [of get api t fs xs s]
  by (auto dest: set_takeWhileD)

lemma walk_older_subset:
  "set (sr_present_in (fst (walk_older get api t xs s)))
   \<subseteq> set (sr_present_in (fst s)) \<union> set xs"
  using walk_older_fields [of get api t xs s]
  by (auto dest: set_takeWhileD)

lemma scan_absent_subset:
  "set (sr_present_in (fst (scan_absent get api t fs vrev xs s)))
   \<subseteq> set (sr_present_in (fst s)) \<union> set xs \<union> set vrev"
proof (induction xs arbitrary: s)
  case Nil
  then show ?case by simp
next
  case (Cons v rest)
  have w: "set (sr_present_in (fst (walk_older get api t (drop (Suc (index vrev v)) vrev) s')))
           \<subseteq> set (sr_present_in (fst s')) \<union> set vrev" for s'
    using walk_older_subset [of get api t "drop (Suc (index vrev v)) vrev" s']
    by (auto dest: in_set_dropD)
  show ?case
  proof (cases "api \<in> get v t")
    case True
    show ?thesis
    proof (cases fs)
      case True
      with \<open>api \<in> get v t\<close> Cons.IH [of "add_present v (checked v s)"] show ?thesis
        by (auto simp: Let_def checked_def add_present_def)
    next
      case False
      with \<open>api \<in> get v t\<close> w [of "add_present v (checked v s)"] show ?thesis
        by (auto simp: Let_def checked_def add_present_def)
    qed
  next
    case False
    with Cons.IH [of "add_not_found v (checked v s)"] show ?thesis
      by (auto simp: Let_def checked_def add_not_found_def)
  qed
qed

lemma search_present_subset:
  assumes "find_api_history vs get api t vb fs = Inr s"
  shows "set (sr_present_in (fst s)) \<subseteq> set vs"
proof (cases "rev vs")
  case Nil
  with assms show ?thesis by (simp add: find_api_history_def)
next
  case (Cons latest older)
  then have sub: "set (latest # older) = set vs"
    by (metis set_rev)
  define r0 where "r0 = \<lparr>sr_api_name = api, sr_api_type = t, sr_introduced = None,
                    sr_removed = None, sr_present_in = [], sr_not_found_in = [],
                    sr_versions_checked = 0\<rparr>"
  show ?thesis
  proof (cases "api \<in> get latest t")
    case True
    define s1 where "s1 = scan_present get api t fs older (add_present latest (checked latest (r0, [])))"
    have "set (sr_present_in (fst s1)) \<subseteq> set (latest # older)"
      unfolding s1_def
      using scan_present_subset [of get api t fs older "add_present latest (checked latest (r0, []))"]
      by (auto simp: checked_def add_present_def r0_def)
    moreover from assms True Cons
    have "sr_present_in (fst s) = sort_key (index vs) (sr_present_in (fst s1))"
      by (auto simp: find_api_history_def Let_def s1_def r0_def simp del: sort_key_simps)
    ultimately show ?thesis using sub by simp
  next
    case False
    define s1 where "s1 = scan_absent get api t fs (rev vs) older (add_not_found latest (checked latest (r0, [])))"
    have "set (sr_present_in (fst s1)) \<subseteq> set vs"
      unfolding s1_def
      using scan_absent_subset [of get api t fs "rev vs" older
              "add_not_found latest (checked latest (r0, []))"] sub
      by (auto simp: checked_def add_not_found_def r0_def)
    moreover from assms False Cons
    have "sr_present_in (fst s) = sort_key (index vs) (sr_present_in (fst s1))"
      by (auto simp: find_api_history_def Let_def s1_def r0_def split: if_splits
               simp del: sort_key_simps)
    ultimately show ?thesis by simp
  qed
qed

subsection \<open>The number of versions examined\<close>

text \<open>
  Claim C3. Over the versions \<open>1.0, 2.0, 3.0\<close>, for a symbol that is in the set of 3.0 and not
  in the set of 2.0, the search without full scan calls the getter on 3.0 and then on 2.0 and
  on nothing else, reports \<open>versions_checked = 2\<close> and concludes \<open>introduced = 3.0\<close>; the set of
  1.0 is never read, so the outcome does not depend on it. In general, for every non-empty
  version list, getter, symbol and mode, the search returns a result, the reported
  \<open>versions_checked\<close> is the number of getter calls made, and the versions fetched are
  exactly those recorded in \<open>present_in\<close> or \<open>not_found_in\<close>.
\<close>

theorem scenario_D_two_fetches:
  "(api \<in> get ''3.0'' t \<and> api \<notin> get ''2.0'' t \<longrightarrow>
      find_api_history [''1.0'', ''2.0'', ''3.0''] get api t vb False
        = Inr (\<lparr>sr_api_name = api, sr_api_type = t, sr_introduced = Some ''3.0'',
                 sr_removed = None, sr_present_in = [''3.0''], sr_not_found_in = [''2.0''],
                 sr_versions_checked = 2\<rparr>,
               [''3.0'', ''2.0'']))
   \<and> (vs \<noteq> [] \<longrightarrow>
        (\<exists>s. find_api_history vs get api t vb fs = Inr s
           \<and> sr_versions_checked (fst s) = length (snd s)
           \<and> set (snd s) = set (sr_present_in (fst s)) \<union> set (sr_not_found_in (fst s))))"
proof (intro conjI impI)
  assume "api \<in> get ''3.0'' t \<and> api \<notin> get ''2.0'' t"
  then show "find_api_history [''1.0'', ''2.0'', ''3.0''] get api t vb False
        = Inr (\<lparr>sr_api_name = api, sr_api_type = t, sr_introduced = Some ''3.0'',
                 sr_removed = None, sr_present_in = [''3.0''], sr_not_found_in = [''2.0''],
                 sr_versions_checked = 2\<rparr>,
               [''3.0'', ''2.0''])"
    by (simp add: find_api_history_def checked_def add_present_def add_not_found_def)
next
  assume "vs \<noteq> []"
  then obtain s where s: "find_api_history vs get api t vb fs = Inr s"
    using find_api_history_total by blast
  from find_api_history_log [OF s] s
  show "\<exists>s. find_api_history vs get api t vb fs = Inr s
           \<and> sr_versions_checked (fst s) = length (snd s)
           \<and> set (snd s) = set (sr_present_in (fst s)) \<union> set (sr_not_found_in (fst s))"
    by blast
qed

theorem scenario_D_two_fetches_witness:
  "''cudaNew'' \<in> newest_only_get ''3.0'' ''runtime''
   \<and> ''cudaNew'' \<notin> newest_only_get ''2.0'' ''runtime''
   \<and> [''1.0'', ''2.0'', ''3.0''] \<noteq> []
   \<and> find_api_history [''1.0'', ''2.0'', ''3.0''] newest_only_get ''cudaNew'' ''runtime'' False False
        = Inr (\<lparr>sr_api_name = ''cudaNew'', sr_api_type = ''runtime'',
                 sr_introduced = Some ''3.0'', sr_removed = None, sr_present_in = [''3.0''],
                 sr_not_found_in = [''2.0''], sr_versions_checked = 2\<rparr>,
               [''3.0'', ''2.0''])
   \<and> (\<exists>s. find_api_history [''1.0'', ''2.0'', ''3.0''] newest_only_get ''cudaNew'' ''runtime''
              False False = Inr s
          \<and> sr_versions_checked (fst s) = length (snd s)
          \<and> set (snd s) = set (sr_present_in (fst s)) \<union> set (sr_not_found_in (fst s)))"
proof -
  have h: "''cudaNew'' \<in> newest_only_get ''3.0'' ''runtime''
           \<and> ''cudaNew'' \<notin> newest_only_get ''2.0'' ''runtime''"
    by (simp add: newest_only_get_def)
  have ne: "[''1.0'', ''2.0'', ''3.0''] \<noteq> []" by simp
  note d = scenario_D_two_fetches [where api="''cudaNew''" and get=newest_only_get
             and t="''runtime''" and vb=False and vs="[''1.0'', ''2.0'', ''3.0'']" and fs=False]
  from d [THEN conjunct1, rule_format, OF h] d [THEN conjunct2, rule_format, OF ne] h ne
  show ?thesis by (intro conjI) (elim conjE, assumption)+
qed

subsection \<open>A symbol present in the newest version\<close>

text \<open>
  Claim C9, as stated, fails for the full scan: over \<open>1.0, 2.0, 3.0\<close> a symbol in the sets of
  1.0 and 3.0 but not of 2.0 is absent from the version just before the newest, yet the full
  scan reports \<open>introduced = 1.0\<close>, the oldest occurrence, not the newest version.
\<close>

theorem full_scan_introduced_not_newest:
  "''f'' \<in> flicker_get ''3.0'' ''runtime'' \<and> ''f'' \<notin> flicker_get ''2.0'' ''runtime''
   \<and> find_api_history [''1.0'', ''2.0'', ''3.0''] flicker_get ''f'' ''runtime'' False True
       = Inr (\<lparr>sr_api_name = ''f'', sr_api_type = ''runtime'', sr_introduced = Some ''1.0'',
                sr_removed = None, sr_present_in = [''1.0'', ''3.0''],
                sr_not_found_in = [''2.0''], sr_versions_checked = 3\<rparr>,
              [''3.0'', ''2.0'', ''1.0''])"
  by (simp add: find_api_history_def flicker_get_def checked_def add_present_def
        add_not_found_def index_def)

text \<open>
  Claim C9, amended. Over a non-empty version list without duplicates, for every symbol in the
  newest version's set the search returns a result in which \<open>removed\<close> is unset, in both modes.
  If the symbol is absent from the version just before the newest, then without full scan
  \<open>introduced\<close> is the newest version; with full scan \<open>introduced\<close> is the oldest version of the
  list in which the symbol is present, which is the newest version when the symbol is in no
  older version's set.
\<close>

theorem present_in_newest:
  assumes "vs \<noteq> []" and "distinct vs" and "api \<in> get (last vs) t"
  shows "\<exists>s. find_api_history vs get api t vb fs = Inr s
     \<and> sr_removed (fst s) = None
     \<and> (fs \<longrightarrow> sr_introduced (fst s) = find (\<lambda>v. api \<in> get v t) vs)
     \<and> (2 \<le> length vs \<and> api \<notin> get (vs ! (length vs - 2)) t \<longrightarrow>
          (\<not> fs \<longrightarrow> sr_introduced (fst s) = Some (last vs))
          \<and> (fs \<and> (\<forall>v \<in> set (butlast vs). api \<notin> get v t) \<longrightarrow>
                sr_introduced (fst s) = Some (last vs)))"
proof -
  let ?P = "\<lambda>v. api \<in> get v t"
  from find_api_history_present [where vs=vs and api=api and get=get and t=t and vb=vb and fs=fs, OF assms]
  obtain s where s: "find_api_history vs get api t vb fs = Inr s"
    and rm: "sr_removed (fst s) = None"
    and pi: "sr_present_in (fst s) = (if fs then filter ?P vs else rev (takeWhile ?P (rev vs)))"
    and intro: "sr_introduced (fst s) = Some (hd (sr_present_in (fst s)))"
    by blast
  have ne: "filter ?P vs \<noteq> []"
    using assms(1,3) by (auto simp: filter_empty_conv)
  have full: "sr_introduced (fst s) = find ?P vs" if "fs"
    using that ne intro pi by (auto simp: find_hd_filter split: list.splits)
  have stop: "sr_introduced (fst s) = Some (last vs)"
    if "\<not> fs" "2 \<le> length vs" "api \<notin> get (vs ! (length vs - 2)) t"
  proof -
    from assms(1) obtain zs b where zs: "vs = zs @ [b]"
      by (cases vs rule: rev_cases) auto
    with that(2) have "zs \<noteq> []" by auto
    then obtain ys a where "zs = ys @ [a]"
      by (cases zs rule: rev_cases) auto
    with zs have vs: "vs = ys @ [a, b]" by simp
    then have "vs ! (length vs - 2) = a" by (simp add: nth_append)
    with that(3) assms(3) have "takeWhile ?P (rev vs) = [b]" by (simp add: vs)
    with that(1) intro pi show ?thesis by (simp add: vs)
  qed
  have all: "sr_introduced (fst s) = Some (last vs)"
    if "fs" "\<forall>v \<in> set (butlast vs). api \<notin> get v t"
  proof -
    have "filter ?P vs = filter ?P (butlast vs @ [last vs])"
      using assms(1) by simp
    also have "\<dots> = [last vs]"
      using that(2) assms(3) by (simp del: append_butlast_last_id)
    finally show ?thesis using that(1) intro pi by simp
  qed
  from s rm full stop all show ?thesis by blast
qed

theorem present_in_newest_witness:
  "[''1.0'', ''2.0'', ''3.0''] \<noteq> [] \<and> distinct [''1.0'', ''2.0'', ''3.0'']
   \<and> ''cudaNew'' \<in> newest_only_get (last [''1.0'', ''2.0'', ''3.0'']) ''runtime''
   \<and> 2 \<le> length [''1.0'', ''2.0'', ''3.0'']
   \<and> ''cudaNew'' \<notin> newest_only_get ([''1.0'', ''2.0'', ''3.0''] ! (length [''1.0'', ''2.0'', ''3.0''] - 2)) ''runtime''
   \<and> list_all (\<lambda>v. ''cudaNew'' \<notin> newest_only_get v ''runtime'')
         (butlast [''1.0'', ''2.0'', ''3.0''])
   \<and> (\<exists>s. find_api_history [''1.0'', ''2.0'', ''3.0''] newest_only_get ''cudaNew'' ''runtime'' False False = Inr s
         \<and> sr_removed (fst s) = None \<and> sr_introduced (fst s) = Some ''3.0'')
   \<and> (\<exists>s. find_api_history [''1.0'', ''2.0'', ''3.0''] newest_only_get ''cudaNew'' ''runtime'' False True = Inr s
         \<and> sr_removed (fst s) = None \<and> sr_introduced (fst s) = Some ''3.0'')"
proof -
  let ?vs = "[''1.0'', ''2.0'', ''3.0'']"
  have h1: "?vs \<noteq> []" and h2: "distinct ?vs"
    and h3: "''cudaNew'' \<in> newest_only_get (last ?vs) ''runtime''"
    and h4: "2 \<le> length ?vs"
    and h5: "''cudaNew'' \<notin> newest_only_get (?vs ! (length ?vs - 2)) ''runtime''"
    and h6: "\<forall>v \<in> set (butlast ?vs). ''cudaNew'' \<notin> newest_only_get v ''runtime''"
    by (simp_all add: newest_only_get_def)
  have l: "last ?vs = ''3.0''" by simp
  from present_in_newest [where vs="?vs" and api="''cudaNew''" and get=newest_only_get
         and t="''runtime''" and vb=False and fs=False, OF h1 h2 h3]
       present_in_newest [where vs="?vs" and api="''cudaNew''" and get=newest_only_get
         and t="''runtime''" and vb=False and fs=True, OF h1 h2 h3]
       h1 h2 h3 h4 h5 h6
  show ?thesis unfolding l list_all_iff by blast
qed

subsection \<open>A symbol absent from the newest version\<close>

text \<open>
  Claim C2, as stated, fails for the full scan. Over \<open>1.0, 2.0, 3.0, 4.0\<close> with the symbol in
  the sets of 1.0 and 3.0 only, the first present version found walking older from 4.0 is
  3.0 and its contiguous present run is 3.0 alone, but the full scan reports
  \<open>introduced = 1.0\<close>.
\<close>

theorem full_scan_introduced_before_run:
  "''f'' \<notin> flicker_get (last flicker_versions) ''runtime''
   \<and> ''f'' \<in> flicker_get ''3.0'' ''runtime'' \<and> ''f'' \<notin> flicker_get ''2.0'' ''runtime''
   \<and> find_api_history flicker_versions flicker_get ''f'' ''runtime'' False True
       = Inr (\<lparr>sr_api_name = ''f'', sr_api_type = ''runtime'', sr_introduced = Some ''1.0'',
                sr_removed = Some ''4.0'', sr_present_in = [''1.0'', ''3.0''],
                sr_not_found_in = [''4.0'', ''2.0''], sr_versions_checked = 4\<rparr>,
              [''4.0'', ''3.0'', ''2.0'', ''1.0''])"
  by (simp add: find_api_history_def flicker_get_def flicker_versions_def checked_def
        add_present_def add_not_found_def index_def)

text \<open>
  Claim C2, amended. Over a version list without duplicates, for every symbol that is absent
  from the newest version's set and present in some older one, the list splits as
  \<open>pre @ run @ gap\<close>, where \<open>gap\<close> is the non-empty block of newest versions without the
  symbol, \<open>run\<close> is the maximal contiguous block with the symbol just before it, and \<open>pre\<close> is
  empty or ends in a version without the symbol. The search returns \<open>removed\<close> = the first
  version of \<open>gap\<close> (the version just newer than the newest version with the symbol), in both
  modes; without full scan \<open>introduced\<close> is the oldest version of \<open>run\<close>; with full scan it is
  the oldest version of the whole list in which the symbol is present.
\<close>

theorem removed_after_last_present:
  assumes "distinct vs" and "api \<notin> get (last vs) t" and "\<exists>v \<in> set vs. api \<in> get v t"
  shows "\<exists>s pre run gap. find_api_history vs get api t vb fs = Inr s
     \<and> vs = pre @ run @ gap \<and> run \<noteq> [] \<and> gap \<noteq> []
     \<and> (\<forall>v \<in> set run. api \<in> get v t) \<and> (\<forall>v \<in> set gap. api \<notin> get v t)
     \<and> (pre = [] \<or> api \<notin> get (last pre) t)
     \<and> sr_removed (fst s) = Some (hd gap)
     \<and> sr_introduced (fst s)
         = (if fs then find (\<lambda>v. api \<in> get v t) vs else Some (hd run))"
proof -
  let ?P = "\<lambda>v. api \<in> get v t"
  let ?N = "\<lambda>v. api \<notin> get v t"
  define D where "D = dropWhile ?N (rev vs)"
  define gap where "gap = rev (takeWhile ?N (rev vs))"
  define run where "run = rev (takeWhile ?P D)"
  define pre where "pre = rev (dropWhile ?P D)"
  from assms(3) have ne: "vs \<noteq> []" by auto
  then obtain older where r: "rev vs = last vs # older"
    by (cases vs rule: rev_cases) auto
  have "rev (takeWhile ?N (rev vs) @ dropWhile ?N (rev vs)) = vs" by simp
  then have outer: "rev D @ gap = vs"
    by (simp only: rev_append D_def gap_def)
  have "rev (takeWhile ?P D @ dropWhile ?P D) = rev D" by simp
  then have inner: "pre @ run = rev D"
    by (simp only: rev_append pre_def run_def)
  have vs: "vs = pre @ run @ gap"
    unfolding outer [symmetric] inner [symmetric] by simp
  have gap_ne: "gap \<noteq> []"
    using assms(2) by (simp add: gap_def r)
  have "D \<noteq> []"
    using assms(3) by (auto simp: D_def)
  then have "?P (hd D)"
    using hd_dropWhile [of ?N "rev vs"] by (simp add: D_def)
  with \<open>D \<noteq> []\<close> have run_ne: "run \<noteq> []"
    by (cases D) (auto simp: run_def)
  have run_all: "\<forall>v \<in> set run. ?P v"
    by (auto simp: run_def dest: set_takeWhileD)
  have gap_all: "\<forall>v \<in> set gap. ?N v"
    by (auto simp: gap_def dest: set_takeWhileD)
  have pre_last: "pre = [] \<or> ?N (last pre)"
  proof (cases "dropWhile ?P D = []")
    case True
    then show ?thesis by (simp add: pre_def)
  next
    case False
    then have "\<not> ?P (hd (dropWhile ?P D))" by (rule hd_dropWhile)
    with False show ?thesis by (simp add: pre_def last_rev)
  qed
  from find_api_history_absent [where vs=vs and api=api and get=get and t=t and vb=vb
         and fs=fs, OF ne assms(1,2)]
  obtain s where s: "find_api_history vs get api t vb fs = Inr s"
    and pi: "sr_present_in (fst s) = (if fs then filter ?P vs else run)"
    and found: "sr_present_in (fst s) \<noteq> [] \<longrightarrow>
           sr_introduced (fst s) = Some (hd (sr_present_in (fst s)))
           \<and> sr_removed (fst s)
               = (if index vs (last (sr_present_in (fst s))) + 1 < length vs
                  then Some (vs ! (index vs (last (sr_present_in (fst s))) + 1))
                  else None)"
    unfolding run_def D_def by blast
  have filt: "filter ?P vs = filter ?P pre @ run"
    using run_all gap_all by (simp add: vs filter_id_conv filter_empty_conv)
  have pi_ne: "sr_present_in (fst s) \<noteq> []"
    using pi run_ne filt by auto
  have last_pi: "last (sr_present_in (fst s)) = last run"
    using pi run_ne filt by auto
  have "vs ! (length pre + (length run - 1)) = last run"
    using run_ne by (simp add: vs nth_append last_conv_nth)
  moreover have "length pre + (length run - 1) < length vs"
    using run_ne by (cases run) (simp_all add: vs)
  ultimately have "index vs (last run) = length pre + (length run - 1)"
    using index_nth [OF assms(1)] by metis
  then have idx: "index vs (last run) + 1 = length pre + length run"
    using run_ne by (cases run) auto
  have "vs ! (length pre + length run) = hd gap"
    using gap_ne by (simp add: vs nth_append hd_conv_nth)
  moreover have "length pre + length run < length vs"
    using gap_ne by (simp add: vs)
  ultimately have removed: "sr_removed (fst s) = Some (hd gap)"
    using found pi_ne last_pi idx by simp
  have intro: "sr_introduced (fst s) = (if fs then find ?P vs else Some (hd run))"
  proof (cases fs)
    case True
    have "filter ?P vs \<noteq> []" using filt run_ne by simp
    then have "find ?P vs = Some (hd (filter ?P vs))"
      by (auto simp: find_hd_filter split: list.splits)
    with True found pi_ne pi show ?thesis by simp
  next
    case False
    with found pi_ne pi show ?thesis by simp
  qed
  from s vs run_ne gap_ne run_all gap_all pre_last removed intro
  show ?thesis by blast
qed

theorem removed_after_last_present_witness:
  "distinct flicker_versions
   \<and> ''f'' \<notin> flicker_get (last flicker_versions) ''runtime''
   \<and> (\<exists>v \<in> set flicker_versions. ''f'' \<in> flicker_get v ''runtime'')
   \<and> (\<exists>s pre run gap.
         find_api_history flicker_versions flicker_get ''f'' ''runtime'' False False = Inr s
         \<and> flicker_versions = pre @ run @ gap \<and> run \<noteq> [] \<and> gap \<noteq> []
         \<and> (\<forall>v \<in> set run. ''f'' \<in> flicker_get v ''runtime'')
         \<and> (\<forall>v \<in> set gap. ''f'' \<notin> flicker_get v ''runtime'')
         \<and> (pre = [] \<or> ''f'' \<notin> flicker_get (last pre) ''runtime'')
         \<and> sr_removed (fst s) = Some (hd gap)
         \<and> sr_introduced (fst s) = Some (hd run))
   \<and> find_api_history flicker_versions flicker_get ''f'' ''runtime'' False False
       = Inr (\<lparr>sr_api_name = ''f'', sr_api_type = ''runtime'', sr_introduced = Some ''3.0'',
                sr_removed = Some ''4.0'', sr_present_in = [''3.0''],
                sr_not_found_in = [''4.0'', ''2.0''], sr_versions_checked = 3\<rparr>,
              [''4.0'', ''3.0'', ''2.0''])"
proof -
  have h1: "distinct flicker_versions"
    and h2: "''f'' \<notin> flicker_get (last flicker_versions) ''runtime''"
    and h3: "\<exists>v \<in> set flicker_versions. ''f'' \<in> flicker_get v ''runtime''"
    by (simp_all add: flicker_versions_def flicker_get_def)
  have e: "find_api_history flicker_versions flicker_get ''f'' ''runtime'' False False
       = Inr (\<lparr>sr_api_name = ''f'', sr_api_type = ''runtime'', sr_introduced = Some ''3.0'',
                sr_removed = Some ''4.0'', sr_present_in = [''3.0''],
                sr_not_found_in = [''4.0'', ''2.0''], sr_versions_checked = 3\<rparr>,
              [''4.0'', ''3.0'', ''2.0''])"
    by (simp add: find_api_history_def flicker_get_def flicker_versions_def checked_def
          add_present_def add_not_found_def index_def)
  from removed_after_last_present [where vs=flicker_versions and api="''f''"
         and get=flicker_get and t="''runtime''" and vb=False and fs=False, OF h1 h2 h3]
  have "\<exists>s pre run gap.
         find_api_history flicker_versions flicker_get ''f'' ''runtime'' False False = Inr s
         \<and> flicker_versions = pre @ run @ gap \<and> run \<noteq> [] \<and> gap \<noteq> []
         \<and> (\<forall>v \<in> set run. ''f'' \<in> flicker_get v ''runtime'')
         \<and> (\<forall>v \<in> set gap. ''f'' \<notin> flicker_get v ''runtime'')
         \<and> (pre = [] \<or> ''f'' \<notin> flicker_get (last pre) ''runtime'')
         \<and> sr_removed (fst s) = Some (hd gap)
         \<and> sr_introduced (fst s) = Some (hd run)"
    by simp
  with h1 h2 h3 e show ?thesis by blast
qed

section \<open>Exit status of the two programs\<close>









section \<open>Properties of the Catalog Builder\<close>

subsection \<open>The dictionary of per-version sets and the scan of one symbol\<close>

lemma map_of_dict_set:
  "map_of (dict_set k v d) = (map_of d)(k \<mapsto> v)"
  by (induction d) (auto simp: fun_eq_iff)

lemma keys_dict_set: "fst ` set (dict_set k v d) = insert k (fst ` set d)"
  by (induction d) auto

lemma map_of_fold_dict_set:
  "map_of (fold (\<lambda>version d. dict_set version (f version) d) versions d0) v
   = (if v \<in> set versions then Some (f v) else map_of d0 v)"
  by (induction versions arbitrary: d0) (auto simp: map_of_dict_set)

lemma apis_at_fetch_all_versions:
  "v \<in> set versions \<Longrightarrow>
   apis_at (fetch_all_versions get versions api_types) v = apis_of_types get api_types v"
  by (simp add: apis_at_def fetch_all_versions_def map_of_fold_dict_set)

lemma keys_fold_dict_set:
  "fst ` set (fold (\<lambda>version d. dict_set version (f version) d) versions d0)
   = set versions \<union> fst ` set d0"
  by (induction versions arbitrary: d0) (auto simp: keys_dict_set)

lemma distinct_dict_set: "distinct (map fst d) \<Longrightarrow> distinct (map fst (dict_set k v d))"
  by (induction d) (auto simp: keys_dict_set [simplified image_iff] image_iff)

lemma distinct_fold_dict_set:
  "distinct (map fst d0) \<Longrightarrow>
   distinct (map fst (fold (\<lambda>version d. dict_set version (f version) d) versions d0))"
  by (induction versions arbitrary: d0) (auto simp: distinct_dict_set)

lemma values_fetch_all_versions:
  "\<Union> (set (map snd (fetch_all_versions get versions api_types)))
   = (\<Union>v \<in> set versions. apis_of_types get api_types v)"
proof -
  let ?d = "fetch_all_versions get versions api_types"
  have keys: "fst ` set ?d = set versions"
    by (simp add: fetch_all_versions_def keys_fold_dict_set)
  have dist: "distinct (map fst ?d)"
    by (simp add: fetch_all_versions_def distinct_fold_dict_set)
  have val: "map_of ?d v = Some (apis_of_types get api_types v)" if "v \<in> set versions" for v
    using that by (simp add: fetch_all_versions_def map_of_fold_dict_set)
  show ?thesis
  proof (intro equalityI subsetI)
    fix x assume "x \<in> \<Union> (set (map snd ?d))"
    then obtain k s where ks: "(k, s) \<in> set ?d" "x \<in> s" by auto
    then have "k \<in> set versions" using keys by force
    moreover have "map_of ?d k = Some s" using ks dist by simp
    ultimately show "x \<in> (\<Union>v \<in> set versions. apis_of_types get api_types v)"
      using val ks by auto
  next
    fix x assume "x \<in> (\<Union>v \<in> set versions. apis_of_types get api_types v)"
    then obtain v where v: "v \<in> set versions" "x \<in> apis_of_types get api_types v" by auto
    then have "(v, apis_of_types get api_types v) \<in> set ?d"
      using val by (auto dest: map_of_SomeD)
    with v show "x \<in> \<Union> (set (map snd ?d))" by force
  qed
qed

lemma scan_versions_eq:
  "scan_versions d api vs (fs, rm, pi)
   = ((case fs of None \<Rightarrow> find (\<lambda>v. api \<in> apis_at d v) vs | Some x \<Rightarrow> Some x),
      (case rm of Some x \<Rightarrow> Some x
       | None \<Rightarrow> find (\<lambda>v. api \<notin> apis_at d v)
                   (if pi \<noteq> [] then vs else dropWhile (\<lambda>v. api \<notin> apis_at d v) vs)),
      pi @ filter (\<lambda>v. api \<in> apis_at d v) vs)"
  by (induction vs arbitrary: fs rm pi) (auto split: option.splits)

lemma set_sorted_list_of_set_subset: "set (sorted_list_of_set A) \<subseteq> A"
  by (cases "finite A") simp_all

lemma catalog_entry_eq:
  assumes "versions \<noteq> []"
  shows "catalog_entry versions (fetch_all_versions get versions ts) api
   = \<lparr>lc_introduced =
        (if find (\<lambda>v. api \<in> apis_of_types get ts v) versions \<noteq> Some (hd versions)
         then find (\<lambda>v. api \<in> apis_of_types get ts v) versions else None),
      lc_removed = find (\<lambda>v. api \<notin> apis_of_types get ts v)
                     (dropWhile (\<lambda>v. api \<notin> apis_of_types get ts v) versions),
      lc_status = (if api \<in> apis_of_types get ts (last versions) then ''present''
                   else if filter (\<lambda>v. api \<in> apis_of_types get ts v) versions \<noteq> []
                   then ''removed'' else ''never_present''),
      lc_present_in = filter (\<lambda>v. api \<in> apis_of_types get ts v) versions\<rparr>"
proof -
  let ?d = "fetch_all_versions get versions ts"
  have at: "apis_at ?d v = apis_of_types get ts v" if "v \<in> set versions" for v
    using that by (rule apis_at_fetch_all_versions)
  have f: "filter (\<lambda>v. api \<in> apis_at ?d v) versions
           = filter (\<lambda>v. api \<in> apis_of_types get ts v) versions"
    by (rule filter_cong) (simp_all add: at)
  have fd: "find (\<lambda>v. api \<in> apis_at ?d v) versions
           = find (\<lambda>v. api \<in> apis_of_types get ts v) versions"
    by (rule find_cong) (simp_all add: at)
  have dw: "dropWhile (\<lambda>v. api \<notin> apis_at ?d v) versions
           = dropWhile (\<lambda>v. api \<notin> apis_of_types get ts v) versions"
    by (rule dropWhile_cong) (simp_all add: at)
  have "set (dropWhile (\<lambda>v. api \<notin> apis_of_types get ts v) versions) \<subseteq> set versions"
    by (rule set_dropWhileD [THEN subsetI])
  then have fn: "find (\<lambda>v. api \<notin> apis_at ?d v)
                   (dropWhile (\<lambda>v. api \<notin> apis_of_types get ts v) versions)
           = find (\<lambda>v. api \<notin> apis_of_types get ts v)
                   (dropWhile (\<lambda>v. api \<notin> apis_of_types get ts v) versions)"
    by (intro find_cong) (auto simp: at)
  have l: "apis_at ?d (last versions) = apis_of_types get ts (last versions)"
    using assms by (simp add: at)
  show ?thesis
    by (simp add: catalog_entry_def scan_versions_eq f fd dw fn l)
qed

lemma generate_api_catalog_apis:
  assumes "generate_api_catalog vs get since until ts = Inr cat"
    and "get_version_range vs since until = Inr versions"
  shows "versions \<noteq> []
     \<and> cat_apis cat
       = map (\<lambda>api. (api, catalog_entry versions
                             (fetch_all_versions get versions (default_api_types ts)) api))
           (sorted_list_of_set (\<Union>v \<in> set versions. apis_of_types get (default_api_types ts) v))"
  using assms
  by (auto simp: generate_api_catalog_def Let_def values_fetch_all_versions [simplified]
           split: if_splits)

lemma first_vanishing_point:
  assumes "find (\<lambda>v. \<not> P v) (dropWhile (\<lambda>v. \<not> P v) xs) = Some r"
  shows "\<exists>abs pres post. xs = abs @ pres @ r # post \<and> (\<forall>v \<in> set abs. \<not> P v)
           \<and> pres \<noteq> [] \<and> (\<forall>v \<in> set pres. P v) \<and> \<not> P r"
proof -
  let ?N = "\<lambda>v. \<not> P v"
  define D where "D = dropWhile ?N xs"
  define abs where "abs = takeWhile ?N xs"
  define pres where "pres = takeWhile P D"
  define rest where "rest = dropWhile P D"
  have xs: "xs = abs @ D" by (simp add: abs_def D_def)
  have D: "D = pres @ rest" by (simp add: pres_def rest_def)
  from assms have "find ?N D = Some r" by (simp add: D_def)
  then have "(case dropWhile (Not \<circ> ?N) D of [] \<Rightarrow> None | x # _ \<Rightarrow> Some x) = Some r"
    by (simp add: find_dropWhile)
  moreover have "dropWhile (Not \<circ> ?N) D = rest"
    by (simp add: rest_def comp_def)
  ultimately obtain post where rest: "rest = r # post"
    by (auto split: list.splits)
  then have "rest \<noteq> []" by simp
  then have nr: "\<not> P r"
    using hd_dropWhile [of P D] rest by (simp add: rest_def)
  have "D \<noteq> []" using D rest by simp
  then have "P (hd D)"
    using hd_dropWhile [of ?N xs] by (simp add: D_def)
  with nr D rest have "pres \<noteq> []" by (cases pres) auto
  moreover have "\<forall>v \<in> set abs. \<not> P v"
    by (auto simp: abs_def dest: set_takeWhileD)
  moreover have "\<forall>v \<in> set pres. P v"
    by (auto simp: pres_def dest: set_takeWhileD)
  moreover have "xs = abs @ pres @ r # post"
    using xs D rest by simp
  ultimately show ?thesis using nr by blast
qed

subsection \<open>Scenario A\<close>

lemma scenario_range:
  "get_version_range scenario_versions None None = Inr scenario_versions"
  by (simp add: get_version_range_def)

lemma scenario_dict:
  "fetch_all_versions scenario_get [''1.0'', ''2.0'', ''3.0''] [''runtime'', ''driver'']
   = [(''1.0'', {''f''}), (''2.0'', {''f'', ''g''}), (''3.0'', {''g''})]"
  by (simp add: fetch_all_versions_def apis_of_types_def scenario_get_def)

lemma scenario_entries:
  "catalog_entry [''1.0'', ''2.0'', ''3.0'']
     [(''1.0'', {''f''}), (''2.0'', {''f'', ''g''}), (''3.0'', {''g''})] ''f'' = scenario_entry_f"
  "catalog_entry [''1.0'', ''2.0'', ''3.0'']
     [(''1.0'', {''f''}), (''2.0'', {''f'', ''g''}), (''3.0'', {''g''})] ''g'' = scenario_entry_g"
  by (simp_all add: catalog_entry_def apis_at_def scenario_entry_f_def scenario_entry_g_def)

lemma scenario_A:
  "generate_api_catalog scenario_versions scenario_get None None None = Inr scenario_catalog"
  by (simp add: generate_api_catalog_def scenario_range default_api_types_def Let_def)
     (simp add: scenario_versions_def scenario_dict scenario_entries insert_absorb
        scenario_catalog_def, simp add: scenario_entry_f_def scenario_entry_g_def)

subsection \<open>The catalog invariant\<close>

text \<open>
  Claim C1, as stated, fails in its second half: \<open>removed\<close> is fixed at the first version
  where the symbol is missing after having been seen, but nothing keeps the symbol out of
  later versions' sets. With \<open>f\<close> in the sets of 1.0 and 3.0 and not of 2.0, the catalog over
  \<open>1.0 .. 3.0\<close> records \<open>removed = 2.0\<close> for \<open>f\<close>, with status \<open>present\<close>, although \<open>f\<close> is in the set
  of 3.0.
\<close>

lemma flicker_range:
  "get_version_range flicker_versions None (Some ''3'') = Inr [''1.0'', ''2.0'', ''3.0'']"
  by (simp add: get_version_range_def resolve_or_exit_def find_closest_version_def
        flicker_versions_def index_def)

lemma flicker_dict:
  "fetch_all_versions flicker_get [''1.0'', ''2.0'', ''3.0''] [''runtime'', ''driver'']
   = [(''1.0'', {''f''}), (''2.0'', {}), (''3.0'', {''f''})]"
  by (simp add: fetch_all_versions_def apis_of_types_def flicker_get_def)

lemma flicker_entry:
  "catalog_entry [''1.0'', ''2.0'', ''3.0''] [(''1.0'', {''f''}), (''2.0'', {}), (''3.0'', {''f''})] ''f''
   = \<lparr>lc_introduced = None, lc_removed = Some ''2.0'', lc_status = ''present'',
      lc_present_in = [''1.0'', ''3.0'']\<rparr>"
  by (simp add: catalog_entry_def apis_at_def)

theorem removed_symbol_reappears:
  "get_version_range flicker_versions None (Some ''3'') = Inr [''1.0'', ''2.0'', ''3.0'']
   \<and> generate_api_catalog flicker_versions flicker_get None (Some ''3'') None
       = Inr \<lparr>cat_api_types = [''runtime'', ''driver''], cat_api_type = ''runtime + driver'',
               cat_since = ''1.0'', cat_until = ''3.0'', cat_total_apis = 1,
               cat_apis = [(''f'', \<lparr>lc_introduced = None, lc_removed = Some ''2.0'',
                                   lc_status = ''present'',
                                   lc_present_in = [''1.0'', ''3.0'']\<rparr>)],
               cat_summary = \<lparr>cs_total = 1, cs_present = 1, cs_removed = 0,
                               cs_introduced_in_range = 0, cs_already_present = 1\<rparr>\<rparr>
   \<and> ''f'' \<in> apis_of_types flicker_get [''runtime'', ''driver''] ''3.0''"
  by (simp add: generate_api_catalog_def flicker_range flicker_dict flicker_entry
        default_api_types_def Let_def)
     (simp add: apis_of_types_def flicker_get_def)

lemma generate_api_catalog_total:
  assumes "get_version_range vs since until = Inr versions"
    and "versions \<noteq> []" and "default_api_types ts \<noteq> []"
  shows "\<exists>cat. generate_api_catalog vs get since until ts = Inr cat"
  using assms by (simp add: generate_api_catalog_def Let_def)

lemma catalog_entry_invariant:
  assumes "generate_api_catalog vs get since until ts = Inr cat"
    and "get_version_range vs since until = Inr versions"
    and "(api, r) \<in> set (cat_apis cat)"
  shows "(lc_status r = ''present'' \<longleftrightarrow>
            api \<in> apis_of_types get (default_api_types ts) (last versions))
     \<and> (\<forall>rv. lc_removed r = Some rv \<longrightarrow>
          (\<exists>abs pres post. versions = abs @ pres @ rv # post
             \<and> (\<forall>v \<in> set abs. api \<notin> apis_of_types get (default_api_types ts) v)
             \<and> pres \<noteq> []
             \<and> (\<forall>v \<in> set pres. api \<in> apis_of_types get (default_api_types ts) v)
             \<and> api \<notin> apis_of_types get (default_api_types ts) rv))"
proof -
  from generate_api_catalog_apis [OF assms(1,2)] assms(3)
  have ne: "versions \<noteq> []"
    and r: "r = catalog_entry versions
                  (fetch_all_versions get versions (default_api_types ts)) api"
    by auto
  note e = r [unfolded catalog_entry_eq [OF ne]]
  have "lc_status r = ''present'' \<longleftrightarrow>
          api \<in> apis_of_types get (default_api_types ts) (last versions)"
    by (simp add: e)
  moreover have "\<exists>abs pres post. versions = abs @ pres @ rv # post
             \<and> (\<forall>v \<in> set abs. api \<notin> apis_of_types get (default_api_types ts) v)
             \<and> pres \<noteq> []
             \<and> (\<forall>v \<in> set pres. api \<in> apis_of_types get (default_api_types ts) v)
             \<and> api \<notin> apis_of_types get (default_api_types ts) rv"
    if "lc_removed r = Some rv" for rv
  proof -
    from that have "find (\<lambda>v. \<not> api \<in> apis_of_types get (default_api_types ts) v)
                      (dropWhile (\<lambda>v. \<not> api \<in> apis_of_types get (default_api_types ts) v) versions)
                    = Some rv"
      by (simp add: e)
    from first_vanishing_point [OF this] show ?thesis by simp
  qed
  ultimately show ?thesis by blast
qed

text \<open>
  Claim C1, amended. In the catalog produced for a resolved range and a family of per-version
  sets (the union over the requested categories), every symbol's record satisfies: its status
  is \<open>present\<close> exactly when the symbol is in the last version's set; and if \<open>removed\<close> is set
  to a version \<open>r\<close>, then \<open>r\<close> is the first vanishing point: the range starts with versions
  without the symbol (possibly none), followed by a non-empty run of versions with it,
  followed by \<open>r\<close>, whose set does not contain it. Nothing is said about the versions
  after \<open>r\<close>.
\<close>

theorem catalog_invariant:
  assumes "get_version_range vs since until = Inr versions"
    and "versions \<noteq> []" and "default_api_types ts \<noteq> []"
  shows "\<exists>cat. generate_api_catalog vs get since until ts = Inr cat
     \<and> (\<forall>api r. (api, r) \<in> set (cat_apis cat) \<longrightarrow>
           (lc_status r = ''present'' \<longleftrightarrow>
              api \<in> apis_of_types get (default_api_types ts) (last versions))
           \<and> (\<forall>rv. lc_removed r = Some rv \<longrightarrow>
                (\<exists>abs pres post. versions = abs @ pres @ rv # post
                   \<and> (\<forall>v \<in> set abs. api \<notin> apis_of_types get (default_api_types ts) v)
                   \<and> pres \<noteq> []
                   \<and> (\<forall>v \<in> set pres. api \<in> apis_of_types get (default_api_types ts) v)
                   \<and> api \<notin> apis_of_types get (default_api_types ts) rv)))"
proof -
  from generate_api_catalog_total [OF assms, of get]
  obtain cat where cat: "generate_api_catalog vs get since until ts = Inr cat" ..
  from catalog_entry_invariant [OF cat assms(1)] cat show ?thesis by blast
qed

theorem catalog_invariant_witness:
  "get_version_range scenario_versions None None = Inr scenario_versions
   \<and> scenario_versions \<noteq> [] \<and> default_api_types None \<noteq> []
   \<and> generate_api_catalog scenario_versions scenario_get None None None = Inr scenario_catalog
   \<and> (''f'', scenario_entry_f) \<in> set (cat_apis scenario_catalog)
   \<and> lc_removed scenario_entry_f = Some ''3.0''
   \<and> (lc_status scenario_entry_f = ''present'' \<longleftrightarrow>
         ''f'' \<in> apis_of_types scenario_get (default_api_types None) (last scenario_versions))
   \<and> (\<exists>abs pres post. scenario_versions = abs @ pres @ ''3.0'' # post
         \<and> (\<forall>v \<in> set abs. ''f'' \<notin> apis_of_types scenario_get (default_api_types None) v)
         \<and> pres \<noteq> []
         \<and> (\<forall>v \<in> set pres. ''f'' \<in> apis_of_types scenario_get (default_api_types None) v)
         \<and> ''f'' \<notin> apis_of_types scenario_get (default_api_types None) ''3.0'')"
proof -
  have h2: "scenario_versions \<noteq> []" by (simp add: scenario_versions_def)
  have h3: "default_api_types None \<noteq> []" by (simp add: default_api_types_def)
  have m: "(''f'', scenario_entry_f) \<in> set (cat_apis scenario_catalog)"
    by (simp add: scenario_catalog_def)
  have rm: "lc_removed scenario_entry_f = Some ''3.0''"
    by (simp add: scenario_entry_f_def)
  from catalog_invariant [OF scenario_range h2 h3, of scenario_get]
  have "\<forall>api r. (api, r) \<in> set (cat_apis scenario_catalog) \<longrightarrow>
           (lc_status r = ''present'' \<longleftrightarrow>
              api \<in> apis_of_types scenario_get (default_api_types None) (last scenario_versions))
           \<and> (\<forall>rv. lc_removed r = Some rv \<longrightarrow>
                (\<exists>abs pres post. scenario_versions = abs @ pres @ rv # post
                   \<and> (\<forall>v \<in> set abs. api \<notin> apis_of_types scenario_get (default_api_types None) v)
                   \<and> pres \<noteq> []
                   \<and> (\<forall>v \<in> set pres. api \<in> apis_of_types scenario_get (default_api_types None) v)
                   \<and> api \<notin> apis_of_types scenario_get (default_api_types None) rv))"
    by (simp add: scenario_A)
  with m rm scenario_A scenario_range h2 h3 show ?thesis by blast
qed


subsection \<open>The keys of the catalog\<close>

lemma catalog_entry_present:
  assumes "generate_api_catalog vs get since until ts = Inr cat"
    and "get_version_range vs since until = Inr versions"
    and "(api, r) \<in> set (cat_apis cat)"
  shows "lc_present_in r \<noteq> []
     \<and> (lc_status r = ''present'' \<or> lc_status r = ''removed'')
     \<and> lc_status r \<noteq> ''never_present''
     \<and> api \<in> (\<Union>v \<in> set versions. apis_of_types get (default_api_types ts) v)"
proof -
  let ?F = "apis_of_types get (default_api_types ts)"
  note apis = generate_api_catalog_apis [OF assms(1,2)]
  from apis assms(3)
  have ne: "versions \<noteq> []"
    and r: "r = catalog_entry versions
                  (fetch_all_versions get versions (default_api_types ts)) api"
    and "api \<in> set (sorted_list_of_set (\<Union>v \<in> set versions. ?F v))"
    by auto
  then have mem: "api \<in> (\<Union>v \<in> set versions. ?F v)"
    using set_sorted_list_of_set_subset by blast
  note e = r [unfolded catalog_entry_eq [OF ne]]
  from mem have pres: "filter (\<lambda>v. api \<in> ?F v) versions \<noteq> []"
    by (auto simp: filter_empty_conv)
  then have "lc_present_in r \<noteq> []" by (simp add: e)
  moreover have "lc_status r = ''present'' \<or> lc_status r = ''removed''"
    using pres by (simp add: e)
  moreover have "lc_status r \<noteq> ''never_present''"
    using pres by (simp add: e)
  ultimately show ?thesis using mem by blast
qed

lemma catalog_keys_union:
  assumes "generate_api_catalog vs get since until ts = Inr cat"
    and "get_version_range vs since until = Inr versions"
    and "\<forall>v \<in> set versions. finite (apis_of_types get (default_api_types ts) v)"
  shows "fst ` set (cat_apis cat)
          = (\<Union>v \<in> set versions. apis_of_types get (default_api_types ts) v)"
proof -
  let ?F = "apis_of_types get (default_api_types ts)"
  note apis = generate_api_catalog_apis [OF assms(1,2)]
  from assms(3) have "finite (\<Union>v \<in> set versions. ?F v)" by simp
  then have "set (sorted_list_of_set (\<Union>v \<in> set versions. ?F v)) = (\<Union>v \<in> set versions. ?F v)"
    by simp
  then show ?thesis
    using apis by (simp add: image_image)
qed

text \<open>
  Claim C10. Every symbol that is a key of the catalog's \<open>apis\<close> dictionary has a non-empty
  \<open>present_in\<close> and the status \<open>present\<close> or \<open>removed\<close>, never \<open>never_present\<close>: every key is in
  the set of some version of the range, and when the per-version sets are finite (as Python
  sets are) the keys are exactly the union of the per-version sets.
\<close>

theorem catalog_keys_present:
  assumes "get_version_range vs since until = Inr versions"
    and "versions \<noteq> []" and "default_api_types ts \<noteq> []"
  shows "\<exists>cat. generate_api_catalog vs get since until ts = Inr cat
     \<and> (\<forall>api r. (api, r) \<in> set (cat_apis cat) \<longrightarrow>
           lc_present_in r \<noteq> []
           \<and> (lc_status r = ''present'' \<or> lc_status r = ''removed'')
           \<and> lc_status r \<noteq> ''never_present''
           \<and> api \<in> (\<Union>v \<in> set versions. apis_of_types get (default_api_types ts) v))
     \<and> ((\<forall>v \<in> set versions. finite (apis_of_types get (default_api_types ts) v)) \<longrightarrow>
          fst ` set (cat_apis cat)
          = (\<Union>v \<in> set versions. apis_of_types get (default_api_types ts) v))"
proof -
  from generate_api_catalog_total [OF assms, of get]
  obtain cat where cat: "generate_api_catalog vs get since until ts = Inr cat" ..
  have e: "\<forall>api r. (api, r) \<in> set (cat_apis cat) \<longrightarrow>
           lc_present_in r \<noteq> []
           \<and> (lc_status r = ''present'' \<or> lc_status r = ''removed'')
           \<and> lc_status r \<noteq> ''never_present''
           \<and> api \<in> (\<Union>v \<in> set versions. apis_of_types get (default_api_types ts) v)"
    by (intro allI impI) (rule catalog_entry_present [OF cat assms(1)])
  have k: "(\<forall>v \<in> set versions. finite (apis_of_types get (default_api_types ts) v)) \<longrightarrow>
          fst ` set (cat_apis cat)
          = (\<Union>v \<in> set versions. apis_of_types get (default_api_types ts) v)"
    by (intro impI) (rule catalog_keys_union [OF cat assms(1)])
  from cat e k have "generate_api_catalog vs get since until ts = Inr cat
     \<and> (\<forall>api r. (api, r) \<in> set (cat_apis cat) \<longrightarrow>
           lc_present_in r \<noteq> []
           \<and> (lc_status r = ''present'' \<or> lc_status r = ''removed'')
           \<and> lc_status r \<noteq> ''never_present''
           \<and> api \<in> (\<Union>v \<in> set versions. apis_of_types get (default_api_types ts) v))
     \<and> ((\<forall>v \<in> set versions. finite (apis_of_types get (default_api_types ts) v)) \<longrightarrow>
          fst ` set (cat_apis cat)
          = (\<Union>v \<in> set versions. apis_of_types get (default_api_types ts) v))"
    by (intro conjI)
  then show ?thesis ..
qed

theorem catalog_keys_present_witness:
  "get_version_range scenario_versions None None = Inr scenario_versions
   \<and> scenario_versions \<noteq> [] \<and> default_api_types None \<noteq> []
   \<and> generate_api_catalog scenario_versions scenario_get None None None = Inr scenario_catalog
   \<and> (''g'', scenario_entry_g) \<in> set (cat_apis scenario_catalog)
   \<and> list_all (\<lambda>v. finite (apis_of_types scenario_get (default_api_types None) v))
         scenario_versions
   \<and> lc_present_in scenario_entry_g \<noteq> []
   \<and> (lc_status scenario_entry_g = ''present'' \<or> lc_status scenario_entry_g = ''removed'')
   \<and> lc_status scenario_entry_g \<noteq> ''never_present''
   \<and> ''g'' \<in> (\<Union>v \<in> set scenario_versions.
                 apis_of_types scenario_get (default_api_types None) v)
   \<and> fst ` set (cat_apis scenario_catalog)
       = (\<Union>v \<in> set scenario_versions. apis_of_types scenario_get (default_api_types None) v)"
proof -
  let ?F = "apis_of_types scenario_get (default_api_types None)"
  have h2: "scenario_versions \<noteq> []" by (simp add: scenario_versions_def)
  have h3: "default_api_types None \<noteq> []" by (simp add: default_api_types_def)
  have m: "(''g'', scenario_entry_g) \<in> set (cat_apis scenario_catalog)"
    by (simp add: scenario_catalog_def)
  have fin: "\<forall>v \<in> set scenario_versions. finite (?F v)"
    by (simp add: scenario_versions_def apis_of_types_def default_api_types_def scenario_get_def)
  then have fin': "list_all (\<lambda>v. finite (?F v)) scenario_versions"
    by (simp only: list_all_iff)
  from catalog_keys_present [OF scenario_range h2 h3, of scenario_get]
  obtain cat where cat: "generate_api_catalog scenario_versions scenario_get None None None = Inr cat"
    and e: "\<forall>api r. (api, r) \<in> set (cat_apis cat) \<longrightarrow>
           lc_present_in r \<noteq> []
           \<and> (lc_status r = ''present'' \<or> lc_status r = ''removed'')
           \<and> lc_status r \<noteq> ''never_present''
           \<and> api \<in> (\<Union>v \<in> set scenario_versions. ?F v)"
    and k: "(\<forall>v \<in> set scenario_versions. finite (?F v)) \<longrightarrow>
          fst ` set (cat_apis cat) = (\<Union>v \<in> set scenario_versions. ?F v)"
    by (elim exE conjE)
  from cat have c: "cat = scenario_catalog" by (simp add: scenario_A)
  from e m have g: "lc_present_in scenario_entry_g \<noteq> []
           \<and> (lc_status scenario_entry_g = ''present'' \<or> lc_status scenario_entry_g = ''removed'')
           \<and> lc_status scenario_entry_g \<noteq> ''never_present''
           \<and> ''g'' \<in> (\<Union>v \<in> set scenario_versions. ?F v)"
    unfolding c by (elim allE impE) assumption+
  from k fin have keys: "fst ` set (cat_apis scenario_catalog) = (\<Union>v \<in> set scenario_versions. ?F v)"
    unfolding c by (rule mp)
  from scenario_range h2 h3 scenario_A m fin' g keys show ?thesis
    by (intro conjI) (elim conjE, assumption)+
qed

section \<open>Properties of the Changelog Builder\<close>

subsection \<open>The loop over the versions\<close>

lemma changelog_step_fields:
  assumes "ls_prev st = Some (p, apis_of_types get ts p)"
  shows "ls_prev (changelog_step get ts x st) = Some (x, apis_of_types get ts x)"
    and "ls_versions (changelog_step get ts x st) = ls_versions st @ [spec_entry get ts p x]"
    and "ls_total_added (changelog_step get ts x st)
         = ls_total_added st + vi_added_count (spec_entry get ts p x)"
    and "ls_total_removed (changelog_step get ts x st)
         = ls_total_removed st + vi_removed_count (spec_entry get ts p x)"
    and "ls_all_added (changelog_step get ts x st)
         = ls_all_added st @ vi_added (spec_entry get ts p x)"
    and "ls_all_removed (changelog_step get ts x st)
         = ls_all_removed st @ vi_removed (spec_entry get ts p x)"
  using assms by (simp_all add: changelog_step_def spec_entry_def Let_def)

lemma changelog_loop:
  assumes "ls_prev st = Some (p, apis_of_types get ts p)"
  shows "ls_versions (fold (changelog_step get ts) xs st)
           = ls_versions st @ map (\<lambda>(a, b). spec_entry get ts a b) (zip (p # xs) xs)
     \<and> ls_total_added (fold (changelog_step get ts) xs st)
           = ls_total_added st
             + sum_list (map (\<lambda>(a, b). vi_added_count (spec_entry get ts a b)) (zip (p # xs) xs))
     \<and> ls_total_removed (fold (changelog_step get ts) xs st)
           = ls_total_removed st
             + sum_list (map (\<lambda>(a, b). vi_removed_count (spec_entry get ts a b)) (zip (p # xs) xs))
     \<and> ls_all_added (fold (changelog_step get ts) xs st)
           = ls_all_added st
             @ concat (map (\<lambda>(a, b). vi_added (spec_entry get ts a b)) (zip (p # xs) xs))
     \<and> ls_all_removed (fold (changelog_step get ts) xs st)
           = ls_all_removed st
             @ concat (map (\<lambda>(a, b). vi_removed (spec_entry get ts a b)) (zip (p # xs) xs))"
  using assms
proof (induction xs arbitrary: p st)
  case Nil
  then show ?case by simp
next
  case (Cons x xs)
  note f = changelog_step_fields [OF Cons.prems, of x]
  from Cons.IH [OF f(1)] show ?case
    by (simp add: f)
qed

lemma changelog_first_step:
  "ls_prev (changelog_step get ts v initial_state) = Some (v, apis_of_types get ts v)
   \<and> ls_versions (changelog_step get ts v initial_state) = []
   \<and> ls_total_added (changelog_step get ts v initial_state) = 0
   \<and> ls_total_removed (changelog_step get ts v initial_state) = 0
   \<and> ls_all_added (changelog_step get ts v initial_state) = []
   \<and> ls_all_removed (changelog_step get ts v initial_state) = []"
  by (simp add: changelog_step_def initial_state_def Let_def)

lemma changelog_fold:
  assumes "versions \<noteq> []"
  shows "ls_versions (fold (changelog_step get ts) versions initial_state)
           = map (\<lambda>(a, b). spec_entry get ts a b) (zip versions (tl versions))
     \<and> ls_total_added (fold (changelog_step get ts) versions initial_state)
           = sum_list (map (\<lambda>(a, b). vi_added_count (spec_entry get ts a b))
                         (zip versions (tl versions)))
     \<and> ls_total_removed (fold (changelog_step get ts) versions initial_state)
           = sum_list (map (\<lambda>(a, b). vi_removed_count (spec_entry get ts a b))
                         (zip versions (tl versions)))
     \<and> ls_all_added (fold (changelog_step get ts) versions initial_state)
           = concat (map (\<lambda>(a, b). vi_added (spec_entry get ts a b)) (zip versions (tl versions)))
     \<and> ls_all_removed (fold (changelog_step get ts) versions initial_state)
           = concat (map (\<lambda>(a, b). vi_removed (spec_entry get ts a b))
                       (zip versions (tl versions)))"
proof -
  from assms obtain v rest where v: "versions = v # rest" by (cases versions) auto
  note first = changelog_first_step [of get ts v]
  from changelog_loop [where st="changelog_step get ts v initial_state" and p=v and xs=rest
         and get=get and ts=ts] first
  show ?thesis by (simp add: v)
qed

lemma generate_changelog_result:
  assumes "get_version_range vs since until = Inr versions"
    and "2 \<le> length versions" and "default_api_types ts \<noteq> []"
  shows "\<exists>cl. generate_changelog vs get since until ts verbose = Inr cl
     \<and> cl_versions cl = map (\<lambda>(a, b). spec_entry get (default_api_types ts) a b)
                          (zip versions (tl versions))
     \<and> sm_total_added (cl_summary cl) = sum_list (map vi_added_count (cl_versions cl))
     \<and> sm_total_removed (cl_summary cl) = sum_list (map vi_removed_count (cl_versions cl))
     \<and> sm_all_added (cl_summary cl)
         = sorted_list_of_set (\<Union>i \<in> set (cl_versions cl). set (vi_added i))
     \<and> sm_all_removed (cl_summary cl)
         = sorted_list_of_set (\<Union>i \<in> set (cl_versions cl). set (vi_removed i))
     \<and> sm_net_new (cl_summary cl)
         = sorted_list_of_set (set (sm_all_added (cl_summary cl))
                               - set (sm_all_removed (cl_summary cl)))
     \<and> sm_net_removed (cl_summary cl)
         = sorted_list_of_set (set (sm_all_removed (cl_summary cl))
                               - set (sm_all_added (cl_summary cl)))"
proof -
  from assms(2) have ne: "versions \<noteq> []" by auto
  note f = changelog_fold [OF ne, of get "default_api_types ts"]
  show ?thesis
    using assms
    by (simp add: generate_changelog_def Let_def f comp_def case_prod_unfold)
qed

subsection \<open>Pairwise differences and net sets\<close>

text \<open>
  Claim C4. For every resolved range of at least 2 versions (with at least one category and
  finite per-version sets), the changelog is produced and has one entry for each consecutive
  pair \<open>(prev, curr)\<close> of the range, in order, equal to the entry the specification prescribes:
  \<open>added\<close> is the sorted list of \<open>curr - prev\<close> and \<open>removed\<close> the sorted list of \<open>prev - curr\<close>,
  so the two are disjoint, and the counts are their lengths. \<open>net_new\<close> is the sorted list of
  (union of all \<open>added\<close>) minus (union of all \<open>removed\<close>) and \<open>net_removed\<close> that of the
  converse difference, so a symbol that is added and removed inside the range is in neither;
  and the sum of the per-pair added counts, which is \<open>total_added\<close>, is at least the length
  of \<open>net_new\<close>.
\<close>

theorem changelog_pairs:
  assumes "get_version_range vs since until = Inr versions"
    and "2 \<le> length versions"
    and "default_api_types ts \<noteq> []"
    and "\<forall>v \<in> set versions. finite (apis_of_types get (default_api_types ts) v)"
  shows "\<exists>cl. generate_changelog vs get since until ts verbose = Inr cl
     \<and> cl_versions cl = map (\<lambda>(a, b). spec_entry get (default_api_types ts) a b)
                          (zip versions (tl versions))
     \<and> (\<forall>i \<in> set (cl_versions cl).
           set (vi_added i) = apis_of_types get (default_api_types ts) (vi_version i)
                              - apis_of_types get (default_api_types ts) (vi_previous i)
           \<and> set (vi_removed i) = apis_of_types get (default_api_types ts) (vi_previous i)
                                  - apis_of_types get (default_api_types ts) (vi_version i)
           \<and> sorted (vi_added i) \<and> distinct (vi_added i)
           \<and> sorted (vi_removed i) \<and> distinct (vi_removed i)
           \<and> set (vi_added i) \<inter> set (vi_removed i) = {}
           \<and> vi_added_count i = length (vi_added i)
           \<and> vi_removed_count i = length (vi_removed i))
     \<and> set (sm_net_new (cl_summary cl))
         = (\<Union>i \<in> set (cl_versions cl). set (vi_added i))
           - (\<Union>i \<in> set (cl_versions cl). set (vi_removed i))
     \<and> set (sm_net_removed (cl_summary cl))
         = (\<Union>i \<in> set (cl_versions cl). set (vi_removed i))
           - (\<Union>i \<in> set (cl_versions cl). set (vi_added i))
     \<and> sorted (sm_net_new (cl_summary cl)) \<and> distinct (sm_net_new (cl_summary cl))
     \<and> sorted (sm_net_removed (cl_summary cl)) \<and> distinct (sm_net_removed (cl_summary cl))
     \<and> (\<forall>x. x \<in> (\<Union>i \<in> set (cl_versions cl). set (vi_added i))
              \<and> x \<in> (\<Union>i \<in> set (cl_versions cl). set (vi_removed i))
            \<longrightarrow> x \<notin> set (sm_net_new (cl_summary cl))
                \<and> x \<notin> set (sm_net_removed (cl_summary cl)))
     \<and> sm_total_added (cl_summary cl) = sum_list (map vi_added_count (cl_versions cl))
     \<and> length (sm_net_new (cl_summary cl)) \<le> sum_list (map vi_added_count (cl_versions cl))"
proof -
  let ?F = "apis_of_types get (default_api_types ts)"
  from generate_changelog_result [OF assms(1,2,3), of get verbose]
  obtain cl where cl: "generate_changelog vs get since until ts verbose = Inr cl"
    and E: "cl_versions cl = map (\<lambda>(a, b). spec_entry get (default_api_types ts) a b)
                               (zip versions (tl versions))"
    and ta: "sm_total_added (cl_summary cl) = sum_list (map vi_added_count (cl_versions cl))"
    and aa: "sm_all_added (cl_summary cl)
               = sorted_list_of_set (\<Union>i \<in> set (cl_versions cl). set (vi_added i))"
    and ar: "sm_all_removed (cl_summary cl)
               = sorted_list_of_set (\<Union>i \<in> set (cl_versions cl). set (vi_removed i))"
    and nn: "sm_net_new (cl_summary cl)
               = sorted_list_of_set (set (sm_all_added (cl_summary cl))
                                     - set (sm_all_removed (cl_summary cl)))"
    and nr: "sm_net_removed (cl_summary cl)
               = sorted_list_of_set (set (sm_all_removed (cl_summary cl))
                                     - set (sm_all_added (cl_summary cl)))"
    by blast
  have entry: "set (vi_added i) = ?F (vi_version i) - ?F (vi_previous i)
           \<and> set (vi_removed i) = ?F (vi_previous i) - ?F (vi_version i)
           \<and> sorted (vi_added i) \<and> distinct (vi_added i)
           \<and> sorted (vi_removed i) \<and> distinct (vi_removed i)
           \<and> set (vi_added i) \<inter> set (vi_removed i) = {}
           \<and> vi_added_count i = length (vi_added i)
           \<and> vi_removed_count i = length (vi_removed i)"
    if "i \<in> set (cl_versions cl)" for i
  proof -
    from that E obtain a b where ab: "(a, b) \<in> set (zip versions (tl versions))"
      and i: "i = spec_entry get (default_api_types ts) a b"
      by auto
    from ab have "a \<in> set versions" "b \<in> set (tl versions)"
      by (auto dest: set_zip_leftD set_zip_rightD)
    then have "a \<in> set versions" "b \<in> set versions"
      by (auto dest: list.set_sel(2) [rotated])
    with assms(4) have fin: "finite (?F a)" "finite (?F b)" by auto
    then have "finite (?F b - ?F a)" "finite (?F a - ?F b)" by auto
    then show ?thesis
      unfolding i spec_entry_def by auto
  qed
  have fa: "finite (\<Union>i \<in> set (cl_versions cl). set (vi_added i))"
    and fr: "finite (\<Union>i \<in> set (cl_versions cl). set (vi_removed i))"
    by auto
  have saa: "set (sm_all_added (cl_summary cl)) = (\<Union>i \<in> set (cl_versions cl). set (vi_added i))"
    unfolding aa using fa by simp
  have sar: "set (sm_all_removed (cl_summary cl))
             = (\<Union>i \<in> set (cl_versions cl). set (vi_removed i))"
    unfolding ar using fr by simp
  have net_new: "set (sm_net_new (cl_summary cl))
         = (\<Union>i \<in> set (cl_versions cl). set (vi_added i))
           - (\<Union>i \<in> set (cl_versions cl). set (vi_removed i))"
    unfolding nn by (simp add: saa sar del: UN_simps)
  have net_removed: "set (sm_net_removed (cl_summary cl))
         = (\<Union>i \<in> set (cl_versions cl). set (vi_removed i))
           - (\<Union>i \<in> set (cl_versions cl). set (vi_added i))"
    unfolding nr by (simp add: saa sar del: UN_simps)
  have sorted: "sorted (sm_net_new (cl_summary cl)) \<and> distinct (sm_net_new (cl_summary cl))
     \<and> sorted (sm_net_removed (cl_summary cl)) \<and> distinct (sm_net_removed (cl_summary cl))"
    by (simp add: nn nr)
  have "length (sm_net_new (cl_summary cl))
        = card ((\<Union>i \<in> set (cl_versions cl). set (vi_added i))
                - (\<Union>i \<in> set (cl_versions cl). set (vi_removed i)))"
    unfolding nn by (simp add: saa sar del: UN_simps)
  also have "\<dots> \<le> card (\<Union>i \<in> set (cl_versions cl). set (vi_added i))"
    using fa by (intro card_mono) auto
  also have "\<dots> = card (set (concat (map vi_added (cl_versions cl))))"
    by simp
  also have "\<dots> \<le> length (concat (map vi_added (cl_versions cl)))"
    by (rule card_length)
  also have "\<dots> = sum_list (map (\<lambda>i. length (vi_added i)) (cl_versions cl))"
    by (simp add: length_concat comp_def)
  also have "\<dots> = sum_list (map vi_added_count (cl_versions cl))"
    using entry by (intro arg_cong [where f=sum_list] map_cong) auto
  finally have le: "length (sm_net_new (cl_summary cl))
                    \<le> sum_list (map vi_added_count (cl_versions cl))" .
  have both: "x \<notin> set (sm_net_new (cl_summary cl)) \<and> x \<notin> set (sm_net_removed (cl_summary cl))"
    if "x \<in> (\<Union>i \<in> set (cl_versions cl). set (vi_added i))
        \<and> x \<in> (\<Union>i \<in> set (cl_versions cl). set (vi_removed i))" for x
    using that unfolding net_new net_removed by blast
  from cl E entry net_new net_removed sorted both ta le show ?thesis
    by blast
qed

text \<open>Scenario B, evaluated.\<close>

lemma scenario_sets:
  "apis_of_types scenario_get [''runtime'', ''driver''] ''1.0'' = {''f''}"
  "apis_of_types scenario_get [''runtime'', ''driver''] ''2.0'' = {''f'', ''g''}"
  "apis_of_types scenario_get [''runtime'', ''driver''] ''3.0'' = {''g''}"
  by (simp_all add: apis_of_types_def scenario_get_def)

lemma scenario_B:
  "generate_changelog scenario_versions scenario_get None None None False = Inr scenario_changelog"
  by (simp add: generate_changelog_def get_version_range_def default_api_types_def Let_def
        scenario_versions_def changelog_step_def initial_state_def scenario_sets
        scenario_changelog_def insert_Diff_if)

theorem changelog_pairs_witness:
  "get_version_range scenario_versions None None = Inr scenario_versions
   \<and> 2 \<le> length scenario_versions
   \<and> default_api_types None \<noteq> []
   \<and> list_all (\<lambda>v. finite (apis_of_types scenario_get (default_api_types None) v))
         scenario_versions
   \<and> generate_changelog scenario_versions scenario_get None None None False
       = Inr scenario_changelog
   \<and> cl_versions scenario_changelog
       = map (\<lambda>(a, b). spec_entry scenario_get (default_api_types None) a b)
           (zip scenario_versions (tl scenario_versions))
   \<and> set (sm_net_new (cl_summary scenario_changelog))
       = (\<Union>i \<in> set (cl_versions scenario_changelog). set (vi_added i))
         - (\<Union>i \<in> set (cl_versions scenario_changelog). set (vi_removed i))
   \<and> length (sm_net_new (cl_summary scenario_changelog))
       \<le> sum_list (map vi_added_count (cl_versions scenario_changelog))"
proof -
  have h1: "get_version_range scenario_versions None None = Inr scenario_versions"
    by (simp add: get_version_range_def)
  have h2: "2 \<le> length scenario_versions"
    by (simp add: scenario_versions_def)
  have h3: "default_api_types None \<noteq> []"
    by (simp add: default_api_types_def)
  have h4: "\<forall>v \<in> set scenario_versions.
              finite (apis_of_types scenario_get (default_api_types None) v)"
    by (simp add: scenario_versions_def default_api_types_def scenario_sets)
  from changelog_pairs [OF h1 h2 h3 h4, of False] scenario_B h1 h2 h3 h4
  show ?thesis by (auto simp: list_all_iff)
qed

end
